theory Spec2Isabelle
  imports Main "HOL-Library.Word"
begin

section \<open>The byte cursor\<close>

text \<open>
  The decoder of \<^verbatim>\<open>nbt.hpp\<close> pulls bytes from a \<^verbatim>\<open>std::istream &\<close>. The stream is
  the only state of the program. It is modelled by the bytes that have not been extracted
  yet and by the flag \<^verbatim>\<open>good()\<close>. No exception mask is set on the stream anywhere in the
  repository, so \<^verbatim>\<open>read\<close> never throws: when fewer than \<open>n\<close> bytes are left it
  stores the bytes it could get, leaves the rest of the destination as it was and sets
  \<^verbatim>\<open>failbit|eofbit\<close>; on a stream that is not good it stores nothing.

  \<^verbatim>\<open>readStream<T>\<close> reads into a local \<^verbatim>\<open>T tmp;\<close> that is not initialised. What such
  a local holds is indeterminate; the field \<open>indet\<close> is the supply of those bytes, in the
  order in which locals are declared. It is a parameter of the model: a theorem that
  holds for every stream holds for every content of uninitialised memory.
\<close>

type_synonym byte = "8 word"

record istream =
  unread :: "byte list"
  good :: bool
  indet :: "nat \<Rightarrow> byte"

definition uninitialised :: "nat \<Rightarrow> istream \<Rightarrow> byte list \<times> istream" where
  "uninitialised n buf =
     (map (indet buf) [0..<n], buf\<lparr>indet := (\<lambda>i. indet buf (i + n))\<rparr>)"

definition istream_read :: "byte list \<Rightarrow> nat \<Rightarrow> istream \<Rightarrow> byte list \<times> istream" where
  "istream_read dst n buf =
     (if \<not> good buf then (dst, buf)
      else if n \<le> length (unread buf)
        then (take n (unread buf) @ drop n dst, buf\<lparr>unread := drop n (unread buf)\<rparr>)
        else (unread buf @ drop (length (unread buf)) dst, buf\<lparr>unread := [], good := False\<rparr>))"

section \<open>The endian normalizer\<close>

text \<open>
  A value of a numeric type \<^verbatim>\<open>T\<close> of \<open>n\<close> bytes is a word of \<open>8 * n\<close> bits (for
  \<^verbatim>\<open>float\<close> and \<^verbatim>\<open>double\<close>, the bits of its object representation). \<open>from_be\<close> and
  \<open>to_be\<close> are the number written by bytes, most significant first, and the bytes of a
  number. What \<^verbatim>\<open>reinterpret_cast\<close> sees depends on the host: \<open>le\<close> stands for
  \<^verbatim>\<open>isHostLittleEndian()\<close>, fixed when the program is compiled, and is a parameter of
  every function that depends on it. \<open>object_bytes\<close> are the bytes of a value in memory,
  in address order, and \<open>object_value\<close> is the value that bytes in memory stand for.
  \<open>swap_loop\<close> is the loop of \<^verbatim>\<open>swapEndian\<close> over the bytes \<^verbatim>\<open>u8\<close> of its argument.
\<close>

definition from_be :: "byte list \<Rightarrow> 'a::len word" where
  "from_be bs = word_rcat bs"

definition to_be :: "'a::len word \<Rightarrow> byte list" where
  "to_be w = map (\<lambda>k. ucast (drop_bit (8 * k) w)) (rev [0..<LENGTH('a) div 8])"

definition object_bytes :: "bool \<Rightarrow> 'a::len word \<Rightarrow> byte list" where
  "object_bytes le u = (if le then rev (to_be u) else to_be u)"

definition object_value :: "bool \<Rightarrow> byte list \<Rightarrow> 'a::len word" where
  "object_value le bs = from_be (if le then rev bs else bs)"

function swap_loop :: "nat \<Rightarrow> byte list \<Rightarrow> byte list" where
  "swap_loop k u8 =
     (let sz = length u8 in
      if k * 2 < sz
      then swap_loop (k + 1) (u8[k := u8 ! (sz - k - 1), sz - k - 1 := u8 ! k])
      else u8)"
  by pat_completeness auto
termination
  by (relation "measure (\<lambda>(k, u8). length u8 - 2 * k)") auto

declare swap_loop.simps [simp del]

definition swapEndian :: "bool \<Rightarrow> 'a::len word \<Rightarrow> 'a word" where
  "swapEndian le u = object_value le (swap_loop 0 (object_bytes le u))"

definition refineBigEndian :: "bool \<Rightarrow> 'a::len word \<Rightarrow> 'a word" where
  "refineBigEndian le u = (if le then swapEndian le u else u)"

text \<open>
  The generic \<^verbatim>\<open>readStream<T>\<close>, for the integer types and for \<^verbatim>\<open>float\<close> and
  \<^verbatim>\<open>double\<close>: \<^verbatim>\<open>sizeof(T)\<close> is \<open>LENGTH('a) div 8\<close>.
\<close>

definition readStream :: "bool \<Rightarrow> istream \<Rightarrow> 'a::len word \<times> istream" where
  "readStream le buf =
     (let (tmp0, buf0) = uninitialised (LENGTH('a) div 8) buf;
          (tmp, buf1) = istream_read tmp0 (LENGTH('a) div 8) buf0
      in (refineBigEndian le (object_value le tmp), buf1))"

text \<open>
  \<^verbatim>\<open>swapEndian<uint8_t>\<close> is specialised to the identity; \<^verbatim>\<open>readStream<uint8_t>\<close>
  is the generic template at that type.
\<close>

definition swapEndian_uint8 :: "byte \<Rightarrow> byte" where
  "swapEndian_uint8 u = u"

definition refineBigEndian_uint8 :: "bool \<Rightarrow> byte \<Rightarrow> byte" where
  "refineBigEndian_uint8 le u = (if le then swapEndian_uint8 u else u)"

definition readStream_uint8 :: "bool \<Rightarrow> istream \<Rightarrow> byte \<times> istream" where
  "readStream_uint8 le buf =
     (let (tmp0, buf0) = uninitialised 1 buf;
          (tmp, buf1) = istream_read tmp0 1 buf0
      in (refineBigEndian_uint8 le (object_value le tmp), buf1))"

text \<open>
  \<^verbatim>\<open>readStream<std::string>\<close>: a \<^verbatim>\<open>std::string\<close> is a sequence of bytes. The
  temporary vector has \<^verbatim>\<open>len + 1\<close> value-initialised (zero) bytes, \<^verbatim>\<open>len\<close> bytes are
  read into it, and the string is built from the whole vector.
\<close>

type_synonym cstring = "byte list"

definition readStream_string :: "bool \<Rightarrow> istream \<Rightarrow> cstring \<times> istream" where
  "readStream_string le buf =
     (let (len :: 16 word, buf1) = readStream le buf;
          (tmp, buf2) = istream_read (replicate (unat len + 1) 0) (unat len) buf1
      in (tmp, buf2))"

section \<open>Tag types\<close>

text \<open>
  \<^verbatim>\<open>enum class TagType : uint8_t\<close>. A \<^verbatim>\<open>static_cast\<close> from any byte gives a value of
  the enumeration type, also outside the thirteen enumerators, so the type is the byte.
\<close>

type_synonym TagType = byte

definition TAG_END :: TagType where "TAG_END = 0"
definition TAG_BYTE :: TagType where "TAG_BYTE = 1"
definition TAG_SHORT :: TagType where "TAG_SHORT = 2"
definition TAG_INT :: TagType where "TAG_INT = 3"
definition TAG_LONG :: TagType where "TAG_LONG = 4"
definition TAG_FLOAT :: TagType where "TAG_FLOAT = 5"
definition TAG_DOUBLE :: TagType where "TAG_DOUBLE = 6"
definition TAG_BYTE_ARRAY :: TagType where "TAG_BYTE_ARRAY = 7"
definition TAG_STRING :: TagType where "TAG_STRING = 8"
definition TAG_LIST :: TagType where "TAG_LIST = 9"
definition TAG_COMPOUND :: TagType where "TAG_COMPOUND = 10"
definition TAG_INT_ARRAY :: TagType where "TAG_INT_ARRAY = 11"
definition TAG_LONG_ARRAY :: TagType where "TAG_LONG_ARRAY = 12"

lemmas TagType_defs =
  TAG_END_def TAG_BYTE_def TAG_SHORT_def TAG_INT_def TAG_LONG_def TAG_FLOAT_def
  TAG_DOUBLE_def TAG_BYTE_ARRAY_def TAG_STRING_def TAG_LIST_def TAG_COMPOUND_def
  TAG_INT_ARRAY_def TAG_LONG_ARRAY_def

definition readStream_TagType :: "bool \<Rightarrow> istream \<Rightarrow> TagType \<times> istream" where
  "readStream_TagType le buf = readStream_uint8 le buf"

section \<open>Tag nodes\<close>

text \<open>
  A node is the base class \<^verbatim>\<open>Tag\<close> (\<^verbatim>\<open>type_\<close>, optional \<^verbatim>\<open>name_\<close>) with the
  \<^verbatim>\<open>val_\<close> of its subclass. \<^verbatim>\<open>float\<close> and \<^verbatim>\<open>double\<close> values are kept as their
  32 and 64 bit object representation: the decoder moves their bytes and never computes
  with them. The \<^verbatim>\<open>unordered_map\<close> of a compound is an association list with at most
  one entry for a key; the order of the list has no meaning.
\<close>

datatype 't payload =
    ByteVal "8 word"
  | ShortVal "16 word"
  | IntVal "32 word"
  | LongVal "64 word"
  | FloatVal "32 word"
  | DoubleVal "64 word"
  | StringVal cstring
  | ByteArrayVal "8 word list"
  | IntArrayVal "32 word list"
  | LongArrayVal "64 word list"
  | ListVal TagType "'t list"
  | CompoundVal "(cstring \<times> 't) list"

datatype Tag = Tag (getTagType: TagType) (getName: "cstring option") (getValue: "Tag payload")

text \<open>\<^verbatim>\<open>unordered_map::insert\<close> stores the pair only when the key is not there yet.\<close>

definition um_insert :: "'k \<Rightarrow> 'v \<Rightarrow> ('k \<times> 'v) list \<Rightarrow> ('k \<times> 'v) list" where
  "um_insert k v m = (if k \<in> fst ` set m then m else m @ [(k, v)])"

section \<open>Outcomes\<close>

text \<open>
  A call returns a value, or throws; in both cases the stream keeps the position it had
  reached. The recursion of the decoder need not end (on a stream that is not good every
  read gives indeterminate bytes), so the recursive functions count their calls down
  from a bound and answer \<open>OutOfFuel\<close> when it is used up.
\<close>

datatype exn = invalid_argument string | runtime_error string | bad_alloc | length_error string

text \<open>
  \<^verbatim>\<open>val_.resize(n)\<close> allocates the vector of an array or of a list, and throws when
  the host cannot give it (\<^verbatim>\<open>std::bad_alloc\<close>, or \<^verbatim>\<open>std::length_error\<close> beyond the
  vector's \<^verbatim>\<open>max_size()\<close>). Whether it does depends on the host, so it is a parameter of
  the model: for the tag type of the container and the requested size, the exception
  thrown, or \<open>None\<close> if the vector is resized. The small allocations (a node, a map
  entry, a text of at most 65536 bytes) are taken to succeed.
\<close>

type_synonym allocator = "TagType \<Rightarrow> nat \<Rightarrow> exn option"

datatype 'a result = Ok 'a istream | Throw exn istream | OutOfFuel

section \<open>Leaf decoders\<close>

definition TagSingle ::
  "bool \<Rightarrow> TagType \<Rightarrow> ('a::len word \<Rightarrow> Tag payload) \<Rightarrow> cstring option \<Rightarrow> istream \<Rightarrow> Tag result" where
  "TagSingle le tt wrap nm buf =
     (let (val, buf1) = readStream le buf in Ok (Tag tt nm (wrap val)) buf1)"

definition TagString :: "bool \<Rightarrow> cstring option \<Rightarrow> istream \<Rightarrow> Tag result" where
  "TagString le nm buf =
     (let (val, buf1) = readStream_string le buf in Ok (Tag TAG_STRING nm (StringVal val)) buf1)"

fun TagArray_elems :: "bool \<Rightarrow> nat \<Rightarrow> istream \<Rightarrow> 'a::len word list \<times> istream" where
  "TagArray_elems le 0 buf = ([], buf)"
| "TagArray_elems le (Suc n) buf =
     (let (elem, buf1) = readStream le buf;
          (rest, buf2) = TagArray_elems le n buf1
      in (elem # rest, buf2))"

definition TagArray_decode ::
  "bool \<Rightarrow> allocator \<Rightarrow> TagType \<Rightarrow> istream \<Rightarrow> ('a::len word list) result" where
  "TagArray_decode le al tt buf =
     (let (len :: 32 word, buf1) = readStream le buf in
      if len \<le> 0 then Ok [] buf1
      else (case al tt (unat len) of
              Some e \<Rightarrow> Throw e buf1
            | None \<Rightarrow> (let (val, buf2) = TagArray_elems le (unat len) buf1 in Ok val buf2)))"

definition TagArray ::
  "bool \<Rightarrow> allocator \<Rightarrow> TagType \<Rightarrow> ('a::len word list \<Rightarrow> Tag payload) \<Rightarrow> cstring option \<Rightarrow>
     istream \<Rightarrow> Tag result" where
  "TagArray le al tt wrap nm buf =
     (case TagArray_decode le al tt buf of
        Ok val buf1 \<Rightarrow> Ok (Tag tt nm (wrap val)) buf1
      | Throw e buf1 \<Rightarrow> Throw e buf1
      | OutOfFuel \<Rightarrow> OutOfFuel)"

section \<open>The dispatcher and the containers\<close>

definition digit_char :: "nat \<Rightarrow> char" where
  "digit_char d = ''0123456789'' ! d"

fun to_string :: "nat \<Rightarrow> string" where
  "to_string n = (if n < 10 then [digit_char n] else to_string (n div 10) @ [digit_char (n mod 10)])"

declare to_string.simps [simp del]

function makeTag :: "bool \<Rightarrow> allocator \<Rightarrow> nat \<Rightarrow> TagType \<Rightarrow> cstring option \<Rightarrow> istream \<Rightarrow> Tag result"
and TagList_decode :: "bool \<Rightarrow> allocator \<Rightarrow> nat \<Rightarrow> istream \<Rightarrow> (TagType \<times> Tag list) result"
and TagList_loop :: "bool \<Rightarrow> allocator \<Rightarrow> nat \<Rightarrow> TagType \<Rightarrow> nat \<Rightarrow> istream \<Rightarrow> Tag list result"
and TagCompound_decode ::
  "bool \<Rightarrow> allocator \<Rightarrow> nat \<Rightarrow> (cstring \<times> Tag) list \<Rightarrow> istream \<Rightarrow> ((cstring \<times> Tag) list) result"
where
  "makeTag le al fuel type nm buf =
     (if type = TAG_BYTE then TagSingle le TAG_BYTE ByteVal nm buf
      else if type = TAG_SHORT then TagSingle le TAG_SHORT ShortVal nm buf
      else if type = TAG_INT then TagSingle le TAG_INT IntVal nm buf
      else if type = TAG_LONG then TagSingle le TAG_LONG LongVal nm buf
      else if type = TAG_FLOAT then TagSingle le TAG_FLOAT FloatVal nm buf
      else if type = TAG_DOUBLE then TagSingle le TAG_DOUBLE DoubleVal nm buf
      else if type = TAG_BYTE_ARRAY then TagArray le al TAG_BYTE_ARRAY ByteArrayVal nm buf
      else if type = TAG_STRING then TagString le nm buf
      else if type = TAG_LIST then
        (case TagList_decode le al fuel buf of
           Ok (elemType, val) buf1 \<Rightarrow> Ok (Tag TAG_LIST nm (ListVal elemType val)) buf1
         | Throw e buf1 \<Rightarrow> Throw e buf1
         | OutOfFuel \<Rightarrow> OutOfFuel)
      else if type = TAG_COMPOUND then
        (case TagCompound_decode le al fuel [] buf of
           Ok val buf1 \<Rightarrow> Ok (Tag TAG_COMPOUND nm (CompoundVal val)) buf1
         | Throw e buf1 \<Rightarrow> Throw e buf1
         | OutOfFuel \<Rightarrow> OutOfFuel)
      else if type = TAG_INT_ARRAY then TagArray le al TAG_INT_ARRAY IntArrayVal nm buf
      else if type = TAG_LONG_ARRAY then TagArray le al TAG_LONG_ARRAY LongArrayVal nm buf
      else if type = TAG_END then
        Throw (invalid_argument ''makeTag: TagType shouldn't be TAG_END'') buf
      else Throw (runtime_error (''makeTag: TagType '' @ to_string (unat type) @ '' not found'')) buf)"
| "TagList_decode le al fuel buf =
     (let (elemType, buf1) = readStream_TagType le buf;
          (length :: 32 word, buf2) = readStream le buf1
      in if length \<le>s 0
         then Throw (runtime_error ''TagList::decode: not implement for variant length list'') buf2
         else (case al TAG_LIST (unat length) of
                 Some e \<Rightarrow> Throw e buf2
               | None \<Rightarrow>
                   (case TagList_loop le al fuel elemType (unat length) buf2 of
                      Ok val buf3 \<Rightarrow> Ok (elemType, val) buf3
                    | Throw e buf3 \<Rightarrow> Throw e buf3
                    | OutOfFuel \<Rightarrow> OutOfFuel)))"
| "TagList_loop le al fuel elemType 0 buf = Ok [] buf"
| "TagList_loop le al 0 elemType (Suc n) buf = OutOfFuel"
| "TagList_loop le al (Suc fuel) elemType (Suc n) buf =
     (case makeTag le al fuel elemType None buf of
        Ok t buf1 \<Rightarrow>
          (case TagList_loop le al (Suc fuel) elemType n buf1 of
             Ok ts buf2 \<Rightarrow> Ok (t # ts) buf2
           | Throw e buf2 \<Rightarrow> Throw e buf2
           | OutOfFuel \<Rightarrow> OutOfFuel)
      | Throw e buf1 \<Rightarrow> Throw e buf1
      | OutOfFuel \<Rightarrow> OutOfFuel)"
| "TagCompound_decode le al fuel val buf =
     (let (type, buf1) = readStream_TagType le buf in
      if type = TAG_END then Ok val buf1
      else (case fuel of
              0 \<Rightarrow> OutOfFuel
            | Suc fuel' \<Rightarrow>
                (let (name, buf2) = readStream_string le buf1 in
                 case makeTag le al fuel' type (Some name) buf2 of
                   Ok t buf3 \<Rightarrow> TagCompound_decode le al fuel' (um_insert name t val) buf3
                 | Throw e buf3 \<Rightarrow> Throw e buf3
                 | OutOfFuel \<Rightarrow> OutOfFuel)))"
  by pat_completeness auto
termination
  by (relation "inv_image (less_than <*lex*> less_than <*lex*> less_than)
        (\<lambda>x. case x of
           Inl (Inl (le, al, fuel, type, nm, buf)) \<Rightarrow> (fuel, 2::nat, 0::nat)
         | Inl (Inr (le, al, fuel, buf)) \<Rightarrow> (fuel, 1, 0)
         | Inr (Inl (le, al, fuel, elemType, n, buf)) \<Rightarrow> (fuel, 0, n)
         | Inr (Inr (le, al, fuel, val, buf)) \<Rightarrow> (fuel, 0, 0))") auto

declare makeTag.simps [simp del]
declare TagList_decode.simps [simp del]
declare TagCompound_decode.simps [simp del]

definition readDocument :: "bool \<Rightarrow> allocator \<Rightarrow> nat \<Rightarrow> istream \<Rightarrow> Tag result" where
  "readDocument le al fuel buf =
     (let (tagType, buf1) = readStream_TagType le buf in
      if tagType \<noteq> TAG_COMPOUND
      then Throw (runtime_error ''readDocument: document should be a named compound'') buf1
      else (let (name, buf2) = readStream_string le buf1 in
            makeTag le al fuel tagType (Some name) buf2))"

section \<open>Auxiliary definitions for the statements\<close>

text \<open>The bytes found in \<^verbatim>\<open>tmp\<close> after \<^verbatim>\<open>T tmp; buf.read(&tmp, n)\<close>, and the stream then.\<close>

definition read_tmp :: "nat \<Rightarrow> istream \<Rightarrow> byte list \<times> istream" where
  "read_tmp n buf = istream_read (fst (uninitialised n buf)) n (snd (uninitialised n buf))"

text \<open>The tag type a payload belongs to: the \<^verbatim>\<open>tt\<close> of the class that holds it.\<close>

fun payload_kind :: "'t payload \<Rightarrow> TagType" where
  "payload_kind (ByteVal v) = TAG_BYTE"
| "payload_kind (ShortVal v) = TAG_SHORT"
| "payload_kind (IntVal v) = TAG_INT"
| "payload_kind (LongVal v) = TAG_LONG"
| "payload_kind (FloatVal v) = TAG_FLOAT"
| "payload_kind (DoubleVal v) = TAG_DOUBLE"
| "payload_kind (StringVal v) = TAG_STRING"
| "payload_kind (ByteArrayVal v) = TAG_BYTE_ARRAY"
| "payload_kind (IntArrayVal v) = TAG_INT_ARRAY"
| "payload_kind (LongArrayVal v) = TAG_LONG_ARRAY"
| "payload_kind (ListVal et v) = TAG_LIST"
| "payload_kind (CompoundVal v) = TAG_COMPOUND"

definition primitive_types :: "TagType set" where
  "primitive_types = {TAG_BYTE, TAG_SHORT, TAG_INT, TAG_LONG, TAG_FLOAT, TAG_DOUBLE, TAG_STRING}"

text \<open>Hosts for the concrete examples: one that resizes every vector, one that refuses
  more than a given number of elements.\<close>

definition unbounded :: allocator where
  "unbounded = (\<lambda>tt n. None)"

definition bounded :: "nat \<Rightarrow> allocator" where
  "bounded m = (\<lambda>tt n. if m < n then Some bad_alloc else None)"

text \<open>
  A freshly opened stream over the given bytes. Uninitialised memory is taken to
  hold zero bytes; only the concrete examples use this stream.
\<close>

definition istream_of :: "byte list \<Rightarrow> istream" where
  "istream_of bs = \<lparr>unread = bs, good = True, indet = (\<lambda>_. 0)\<rparr>"




text \<open>
  Modelled from the spec: the reference big-endian encoder of section 8. The repository
  has no encoder. A number is written most significant byte first; a text is written as
  its 16 bit length followed by its bytes.
\<close>

definition encode_numeric :: "'a::len word \<Rightarrow> byte list" where
  "encode_numeric v = to_be v"

definition encode_text :: "cstring \<Rightarrow> byte list" where
  "encode_text v = encode_numeric (word_of_nat (length v) :: 16 word) @ v"

text \<open>
  Modelled from the spec: the wire format of section 6, as an encoder of trees. A numeric
  payload is its value, big-endian; a STRING payload is a text; an array is its 32 bit
  length and its elements; a list is the element type id, the 32 bit length and the
  payloads of the elements; a compound is its keyed children (type id, name, payload)
  followed by the END id. The tree given to the encoder holds the texts as they are on
  the wire.
\<close>

fun encode_payload :: "Tag \<Rightarrow> byte list" where
  "encode_payload (Tag ty nm (ByteVal v)) = encode_numeric v"
| "encode_payload (Tag ty nm (ShortVal v)) = encode_numeric v"
| "encode_payload (Tag ty nm (IntVal v)) = encode_numeric v"
| "encode_payload (Tag ty nm (LongVal v)) = encode_numeric v"
| "encode_payload (Tag ty nm (FloatVal v)) = encode_numeric v"
| "encode_payload (Tag ty nm (DoubleVal v)) = encode_numeric v"
| "encode_payload (Tag ty nm (StringVal s)) = encode_text s"
| "encode_payload (Tag ty nm (ByteArrayVal vs)) =
     encode_numeric (word_of_nat (length vs) :: 32 word) @ concat (map encode_numeric vs)"
| "encode_payload (Tag ty nm (IntArrayVal vs)) =
     encode_numeric (word_of_nat (length vs) :: 32 word) @ concat (map encode_numeric vs)"
| "encode_payload (Tag ty nm (LongArrayVal vs)) =
     encode_numeric (word_of_nat (length vs) :: 32 word) @ concat (map encode_numeric vs)"
| "encode_payload (Tag ty nm (ListVal et ts)) =
     et # encode_numeric (word_of_nat (length ts) :: 32 word) @ concat (map encode_payload ts)"
| "encode_payload (Tag ty nm (CompoundVal m)) =
     concat (map (\<lambda>kt. getTagType (snd kt) # encode_text (fst kt) @ encode_payload (snd kt)) m)
     @ [TAG_END]"

definition encode_keyed :: "cstring \<times> Tag \<Rightarrow> byte list" where
  "encode_keyed kt = getTagType (snd kt) # encode_text (fst kt) @ encode_payload (snd kt)"

text \<open>
  What \<^verbatim>\<open>readStream<std::string>\<close> returns for a text of the wire: the bytes of the text
  and the zero byte that ends \<^verbatim>\<open>tmp\<close>. \<open>decoded\<close> is the tree the decoder builds for an
  encoded tree: every name and every STRING payload is replaced in this way, and nothing
  else changes.
\<close>

definition decoded_text :: "cstring \<Rightarrow> cstring" where
  "decoded_text s = s @ [0]"

fun decoded :: "Tag \<Rightarrow> Tag" where
  "decoded (Tag ty nm (StringVal s)) = Tag ty (map_option decoded_text nm) (StringVal (decoded_text s))"
| "decoded (Tag ty nm (ListVal et ts)) = Tag ty (map_option decoded_text nm) (ListVal et (map decoded ts))"
| "decoded (Tag ty nm (CompoundVal m)) =
     Tag ty (map_option decoded_text nm)
       (CompoundVal (map (\<lambda>kt. (decoded_text (fst kt), decoded (snd kt))) m))"
| "decoded (Tag ty nm p) = Tag ty (map_option decoded_text nm) p"

text \<open>
  The trees whose encoding is a stream the decoder accepts on a host with the given
  allocator: a text has less than 65536 bytes, so that its length fits the 16 bit field;
  an array has less than \<open>2^32\<close> elements and, unless it is empty, its vector is
  allocated; a list is not empty, has less than \<open>2^31\<close> elements, all of the element
  type and without a name, and its vector is allocated; the children of a compound have
  distinct names, and each child carries the name that is its key. Every node has the
  tag type of its payload.
\<close>

fun encodable :: "allocator \<Rightarrow> Tag \<Rightarrow> bool" where
  "encodable al (Tag ty nm (StringVal s)) = (ty = TAG_STRING \<and> length s < 65536)"
| "encodable al (Tag ty nm (ByteArrayVal vs)) =
     (ty = TAG_BYTE_ARRAY \<and> length vs < 2 ^ 32 \<and> (vs \<noteq> [] \<longrightarrow> al TAG_BYTE_ARRAY (length vs) = None))"
| "encodable al (Tag ty nm (IntArrayVal vs)) =
     (ty = TAG_INT_ARRAY \<and> length vs < 2 ^ 32 \<and> (vs \<noteq> [] \<longrightarrow> al TAG_INT_ARRAY (length vs) = None))"
| "encodable al (Tag ty nm (LongArrayVal vs)) =
     (ty = TAG_LONG_ARRAY \<and> length vs < 2 ^ 32 \<and> (vs \<noteq> [] \<longrightarrow> al TAG_LONG_ARRAY (length vs) = None))"
| "encodable al (Tag ty nm (ListVal et ts)) =
     (ty = TAG_LIST \<and> ts \<noteq> [] \<and> length ts < 2 ^ 31 \<and> al TAG_LIST (length ts) = None
      \<and> (\<forall>t \<in> set ts. getTagType t = et \<and> getName t = None \<and> encodable al t))"
| "encodable al (Tag ty nm (CompoundVal m)) =
     (ty = TAG_COMPOUND \<and> distinct (map fst m)
      \<and> (\<forall>kt \<in> set m. length (fst kt) < 65536 \<and> getName (snd kt) = Some (fst kt)
                        \<and> encodable al (snd kt)))"
| "encodable al (Tag ty nm p) = (ty = payload_kind p)"

text \<open>
  The number of calls the model counts while it decodes the encoding of a tree: one for
  a list and one for each child of a compound.
\<close>

fun fuel_needed :: "Tag \<Rightarrow> nat" where
  "fuel_needed (Tag ty nm (ListVal et ts)) = Suc (sum_list (map fuel_needed ts))"
| "fuel_needed (Tag ty nm (CompoundVal m)) = sum_list (map (\<lambda>kt. Suc (fuel_needed (snd kt))) m)"
| "fuel_needed (Tag ty nm p) = 0"

text \<open>The entries of \<open>kvs\<close> inserted one after the other with \<^verbatim>\<open>unordered_map::insert\<close>.\<close>

definition insert_all :: "('k \<times> 'v) list \<Rightarrow> ('k \<times> 'v) list \<Rightarrow> ('k \<times> 'v) list" where
  "insert_all m kvs = foldl (\<lambda>m kv. um_insert (fst kv) (snd kv) m) m kvs"

text \<open>
  The dispatcher decodes the encoding of a tree: with enough calls left, on a good stream
  that starts with the encoding, it returns the node and leaves the stream good, at the
  first byte after the encoding.
\<close>

definition decodes :: "bool \<Rightarrow> allocator \<Rightarrow> Tag \<Rightarrow> bool" where
  "decodes le al t =
     (\<forall>fuel nm buf rest.
        fuel_needed t \<le> fuel \<longrightarrow> good buf \<longrightarrow> unread buf = encode_payload t @ rest \<longrightarrow>
        (\<exists>buf'. makeTag le al fuel (getTagType t) nm buf =
                   Ok (Tag (getTagType t) nm (getValue (decoded t))) buf'
                \<and> good buf' \<and> unread buf' = rest))"

section \<open>Byte order\<close>

lemma bit_from_be:
  "bit (from_be bs :: 'a::len word) i \<longleftrightarrow>
     i < LENGTH('a) \<and> i div 8 < length bs \<and> bit (rev bs ! (i div 8)) (i mod 8)"
proof -
  have "bit (horner_sum uint ((2::int) ^ LENGTH(8)) (rev bs)) i \<longleftrightarrow>
          i div 8 < length bs \<and> bit (rev bs ! (i div 8)) (i mod 8)"
    using bit_horner_sum_uint_exp_iff [where 'a = 8, of "rev bs" i] by simp
  then show ?thesis
    by (simp add: from_be_def word_rcat_def bit_word_of_int_iff)
qed

lemma length_to_be: "length (to_be (w :: 'a::len word)) = LENGTH('a) div 8"
  by (simp add: to_be_def)

lemma nth_to_be:
  "k < LENGTH('a) div 8 \<Longrightarrow>
     to_be (w :: 'a::len word) ! k = ucast (drop_bit (8 * (LENGTH('a) div 8 - 1 - k)) w)"
  by (simp add: to_be_def rev_nth)

lemma to_be_from_be:
  assumes "length bs = LENGTH('a) div 8" and "8 dvd LENGTH('a::len)"
  shows "to_be (from_be bs :: 'a word) = bs"
proof (rule nth_equalityI)
  show "length (to_be (from_be bs :: 'a word)) = length bs"
    using assms by (simp add: length_to_be)
next
  fix k assume "k < length (to_be (from_be bs :: 'a word))"
  then have k: "k < LENGTH('a) div 8" by (simp add: length_to_be)
  let ?n = "LENGTH('a) div 8"
  have n8: "8 * ?n = LENGTH('a)" using assms(2) by auto
  show "to_be (from_be bs :: 'a word) ! k = bs ! k"
  proof (rule bit_word_eqI)
    fix j assume j: "j < LENGTH(8)"
    then have j8: "j < 8" by simp
    have pos: "8 * (?n - 1 - k) + j < LENGTH('a)" using k j8 n8 by linarith
    have d: "(8 * (?n - 1 - k) + j) div 8 = ?n - 1 - k" using j8 by simp
    have m: "(8 * (?n - 1 - k) + j) mod 8 = j" using j8 by simp
    have r: "rev bs ! (?n - 1 - k) = bs ! k"
      using k assms(1) by (simp add: rev_nth)
    show "bit (to_be (from_be bs :: 'a word) ! k) j \<longleftrightarrow> bit (bs ! k) j"
      using k j8 pos d m r assms(1)
      by (simp add: nth_to_be bit_ucast_iff bit_drop_bit_eq bit_from_be add.commute)
  qed
qed

lemma from_be_to_be:
  assumes "8 dvd LENGTH('a::len)"
  shows "from_be (to_be (w :: 'a word)) = w"
proof (rule bit_word_eqI)
  fix i assume i: "i < LENGTH('a)"
  let ?n = "LENGTH('a) div 8"
  have n8: "8 * ?n = LENGTH('a)" using assms by auto
  have k: "i div 8 < ?n" using i n8 by (simp add: less_mult_imp_div_less mult.commute)
  have r: "rev (to_be w) ! (i div 8) = to_be w ! (?n - 1 - i div 8)"
    using k by (simp add: rev_nth length_to_be)
  have e: "8 * (i div 8) + i mod 8 = i" by simp
  show "bit (from_be (to_be w) :: 'a word) i \<longleftrightarrow> bit w i"
    using i k r e
    by (simp add: bit_from_be length_to_be nth_to_be bit_ucast_iff bit_drop_bit_eq)
qed

lemma swap_loop_mid:
  "length a = k \<Longrightarrow> length b = k \<Longrightarrow> swap_loop k (a @ m @ b) = a @ rev m @ b"
proof (induction "length m" arbitrary: m a b k rule: less_induct)
  case less
  show ?case
  proof (cases m)
    case Nil
    with less.prems show ?thesis by (subst swap_loop.simps) simp
  next
    case (Cons x m1)
    show ?thesis
    proof (cases m1 rule: rev_cases)
      case Nil
      with Cons less.prems have "swap_loop k (a @ m @ b) = swap_loop (k + 1) (a @ [x] @ b)"
        by (subst swap_loop.simps) (simp add: nth_append list_update_append)
      also have "\<dots> = a @ [x] @ b"
        using less.prems by (subst swap_loop.simps) simp
      finally show ?thesis using Cons Nil by simp
    next
      case (snoc m2 y)
      have upd: "(a @ x # m2 @ y # b)[k := y, Suc (length m2 + k) := x] = (a @ [y]) @ m2 @ ([x] @ b)"
        using less.prems by (simp add: list_update_append nth_append)
      have "swap_loop k (a @ m @ b) = swap_loop (k + 1) ((a @ [y]) @ m2 @ ([x] @ b))"
        using less.prems Cons snoc upd
        by (subst swap_loop.simps) (simp add: nth_append Let_def)
      also have "\<dots> = (a @ [y]) @ rev m2 @ ([x] @ b)"
        using less.prems Cons snoc by (intro less.hyps) simp_all
      finally show ?thesis using Cons snoc by simp
    qed
  qed
qed

lemma swap_loop_rev: "swap_loop 0 bs = rev bs"
  using swap_loop_mid [of "[]" 0 "[]" bs] by simp

section \<open>Reading from the stream\<close>

lemma length_uninitialised: "length (fst (uninitialised n buf)) = n"
  by (simp add: uninitialised_def)

lemma length_istream_read:
  "n \<le> length dst \<Longrightarrow> length (fst (istream_read dst n buf)) = length dst"
  by (simp add: istream_read_def)

lemma refineBigEndian_object_value:
  assumes "length tmp = LENGTH('a) div 8" and "8 dvd LENGTH('a::len)"
  shows "refineBigEndian le (object_value le tmp :: 'a word) = from_be tmp"
  using assms
  by (simp add: refineBigEndian_def swapEndian_def object_value_def object_bytes_def
      swap_loop_rev to_be_from_be)

lemma length_read_tmp: "length (fst (read_tmp n buf)) = n"
  by (simp add: read_tmp_def length_istream_read length_uninitialised)

lemma readStream_from_be:
  assumes "8 dvd LENGTH('a::len)"
  shows "(readStream le buf :: 'a word \<times> istream) =
           (from_be (fst (read_tmp (LENGTH('a) div 8) buf)), snd (read_tmp (LENGTH('a) div 8) buf))"
proof -
  obtain tmp buf1 where r: "read_tmp (LENGTH('a) div 8) buf = (tmp, buf1)"
    by (cases "read_tmp (LENGTH('a) div 8) buf")
  then have "length tmp = LENGTH('a) div 8"
    using length_read_tmp [of "LENGTH('a) div 8" buf] by simp
  then have "refineBigEndian le (object_value le tmp :: 'a word) = from_be tmp"
    using assms by (rule refineBigEndian_object_value)
  then show ?thesis
    using r by (simp add: readStream_def read_tmp_def split_def Let_def)
qed

lemma read_tmp_good:
  "good buf \<Longrightarrow> n \<le> length (unread buf) \<Longrightarrow>
     read_tmp n buf =
       (take n (unread buf),
        buf\<lparr>unread := drop n (unread buf), indet := (\<lambda>i. indet buf (i + n))\<rparr>)"
  by (simp add: read_tmp_def istream_read_def uninitialised_def)

lemma from_be_single: "(from_be [b] :: byte) = b"
  by (rule bit_word_eqI) (simp add: bit_from_be)

lemma readStream_uint8_from_be:
  "readStream_uint8 le buf = (from_be (fst (read_tmp 1 buf)), snd (read_tmp 1 buf))"
proof -
  obtain tmp buf1 where r: "read_tmp 1 buf = (tmp, buf1)"
    by (cases "read_tmp 1 buf")
  then have "length tmp = 1"
    using length_read_tmp [of 1 buf] by simp
  then obtain b where "tmp = [b]"
    by (cases tmp) simp_all
  then show ?thesis
    using r
    by (simp add: readStream_uint8_def read_tmp_def split_def Let_def object_value_def
        refineBigEndian_uint8_def swapEndian_uint8_def)
qed

lemma readStream_uint8_good:
  "good buf \<Longrightarrow> unread buf = b # rest \<Longrightarrow>
     readStream_uint8 le buf = (b, buf\<lparr>unread := rest, indet := (\<lambda>i. indet buf (i + 1))\<rparr>)"
  by (simp add: readStream_uint8_from_be read_tmp_good from_be_single)

lemma readStream_good:
  assumes "8 dvd LENGTH('a::len)" and "good buf" and "LENGTH('a) div 8 \<le> length (unread buf)"
  shows "(readStream le buf :: 'a word \<times> istream) =
           (from_be (take (LENGTH('a) div 8) (unread buf)),
            buf\<lparr>unread := drop (LENGTH('a) div 8) (unread buf),
                indet := (\<lambda>i. indet buf (i + LENGTH('a) div 8))\<rparr>)"
  using assms by (simp add: readStream_from_be read_tmp_good)

lemma readStream_string_length:
  "length (fst (readStream_string le buf)) = unat (fst (readStream le buf :: 16 word \<times> istream)) + 1"
  by (simp add: readStream_string_def split_def Let_def length_istream_read)

lemma drop_pad: "drop n (x # replicate n x) = [x]"
  by (induction n) simp_all



lemma readStream_string_good:
  assumes "good buf" and "unread buf = b1 # b2 # bs"
    and "unat (from_be [b1, b2] :: 16 word) = L" and "L \<le> length bs"
  shows "readStream_string le buf =
           (take L bs @ [0], buf\<lparr>unread := drop L bs, indet := (\<lambda>i. indet buf (i + 2))\<rparr>)"
proof -
  have "(readStream le buf :: 16 word \<times> istream) =
          (from_be [b1, b2], buf\<lparr>unread := bs, indet := (\<lambda>i. indet buf (i + 2))\<rparr>)"
    using assms(1,2) by (simp add: readStream_good)
  then show ?thesis
    using assms by (simp add: readStream_string_def istream_read_def drop_pad)
qed


lemma istream_of_simps:
  "good (istream_of bs)" "unread (istream_of bs) = bs" "indet (istream_of bs) = (\<lambda>_. 0)"
  "(istream_of bs)\<lparr>unread := cs, indet := (\<lambda>_. 0)\<rparr> = istream_of cs"
  by (simp_all add: istream_of_def)

lemma readStream_TagType_good:
  "good buf \<Longrightarrow> unread buf = b # rest \<Longrightarrow>
     readStream_TagType le buf = (b, buf\<lparr>unread := rest, indet := (\<lambda>i. indet buf (i + 1))\<rparr>)"
  by (simp add: readStream_TagType_def readStream_uint8_good)

lemma unread_read_tmp: "length (unread buf) \<le> length (unread (snd (read_tmp n buf))) + n"
  by (simp add: read_tmp_def istream_read_def uninitialised_def)

lemma readStream_TagType_consumes:
  "length (unread buf) \<le> length (unread (snd (readStream_TagType le buf))) + 1"
  using unread_read_tmp [of buf 1]
  by (simp add: readStream_TagType_def readStream_uint8_from_be)

section \<open>The dispatcher\<close>

lemma makeTag_END:
  "makeTag le al fuel TAG_END nm buf =
     Throw (invalid_argument ''makeTag: TagType shouldn't be TAG_END'') buf"
  by (simp add: makeTag.simps TagType_defs)

lemma makeTag_unknown:
  "12 < type \<Longrightarrow>
     makeTag le al fuel type nm buf =
       Throw (runtime_error (''makeTag: TagType '' @ to_string (unat type) @ '' not found'')) buf"
  by (subst makeTag.simps) (auto simp: TagType_defs)

lemma makeTag_leaf:
  "makeTag le al fuel TAG_BYTE nm buf = TagSingle le TAG_BYTE ByteVal nm buf"
  "makeTag le al fuel TAG_SHORT nm buf = TagSingle le TAG_SHORT ShortVal nm buf"
  "makeTag le al fuel TAG_INT nm buf = TagSingle le TAG_INT IntVal nm buf"
  "makeTag le al fuel TAG_LONG nm buf = TagSingle le TAG_LONG LongVal nm buf"
  "makeTag le al fuel TAG_FLOAT nm buf = TagSingle le TAG_FLOAT FloatVal nm buf"
  "makeTag le al fuel TAG_DOUBLE nm buf = TagSingle le TAG_DOUBLE DoubleVal nm buf"
  "makeTag le al fuel TAG_BYTE_ARRAY nm buf = TagArray le al TAG_BYTE_ARRAY ByteArrayVal nm buf"
  "makeTag le al fuel TAG_STRING nm buf = TagString le nm buf"
  "makeTag le al fuel TAG_INT_ARRAY nm buf = TagArray le al TAG_INT_ARRAY IntArrayVal nm buf"
  "makeTag le al fuel TAG_LONG_ARRAY nm buf = TagArray le al TAG_LONG_ARRAY LongArrayVal nm buf"
  by (simp_all add: makeTag.simps TagType_defs)

lemma makeTag_LIST:
  "makeTag le al fuel TAG_LIST nm buf =
     (case TagList_decode le al fuel buf of
        Ok (elemType, val) buf1 \<Rightarrow> Ok (Tag TAG_LIST nm (ListVal elemType val)) buf1
      | Throw e buf1 \<Rightarrow> Throw e buf1
      | OutOfFuel \<Rightarrow> OutOfFuel)"
  by (simp add: makeTag.simps TagType_defs)

lemma makeTag_COMPOUND:
  "makeTag le al fuel TAG_COMPOUND nm buf =
     (case TagCompound_decode le al fuel [] buf of
        Ok val buf1 \<Rightarrow> Ok (Tag TAG_COMPOUND nm (CompoundVal val)) buf1
      | Throw e buf1 \<Rightarrow> Throw e buf1
      | OutOfFuel \<Rightarrow> OutOfFuel)"
  by (simp add: makeTag.simps TagType_defs)

lemma TagType_cases:
  fixes type :: TagType
  obtains "type = TAG_END" | "type = TAG_BYTE" | "type = TAG_SHORT" | "type = TAG_INT"
    | "type = TAG_LONG" | "type = TAG_FLOAT" | "type = TAG_DOUBLE" | "type = TAG_BYTE_ARRAY"
    | "type = TAG_STRING" | "type = TAG_LIST" | "type = TAG_COMPOUND" | "type = TAG_INT_ARRAY"
    | "type = TAG_LONG_ARRAY" | "12 < type"
proof -
  have "unat type \<le> 12 \<or> 12 < type"
    by (auto simp: word_less_nat_alt)
  moreover have "unat type \<le> 12 \<Longrightarrow> unat type \<in> {0, 1, 2, 3, 4, 5, 6, 7, 8, 9, 10, 11, 12}"
    by simp arith
  ultimately show ?thesis
    using that by (auto simp: TagType_defs word_unat_eq_iff)
qed

lemma makeTag_Ok_kind:
  assumes "makeTag le al fuel type nm buf = Ok t buf'"
  shows "getTagType t = type \<and> getName t = nm \<and> payload_kind (getValue t) = type"
proof (cases type rule: TagType_cases)
  case 1
  with assms show ?thesis by (simp add: makeTag_END)
next
  case 10
  with assms show ?thesis by (auto simp: makeTag_LIST split: result.splits prod.splits)
next
  case 11
  with assms show ?thesis by (auto simp: makeTag_COMPOUND split: result.splits)
next
  case 14
  with assms show ?thesis by (simp add: makeTag_unknown)
qed (use assms in \<open>auto simp: makeTag_leaf TagSingle_def TagString_def TagArray_def split_def Let_def
           split: result.splits\<close>)

lemma makeTag_primitive_Ok:
  "type \<in> primitive_types \<Longrightarrow> \<exists>t buf'. makeTag le al fuel type nm buf = Ok t buf'"
  unfolding primitive_types_def
  by (auto simp: makeTag_leaf TagSingle_def TagString_def split_def Let_def)

lemma to_string_13: "to_string 13 = ''13''"
  by (simp add: to_string.simps digit_char_def)

section \<open>The containers, and evaluation on concrete streams\<close>

lemma readStream_TagType_of:
  "readStream_TagType le (istream_of (b # rest)) = (b, istream_of rest)"
  by (simp add: readStream_TagType_good [where b = b and rest = rest] istream_of_def)

lemma readStream_of:
  assumes "8 dvd LENGTH('a::len)" and "LENGTH('a) div 8 \<le> length bs"
  shows "(readStream le (istream_of bs) :: 'a word \<times> istream) =
           (from_be (take (LENGTH('a) div 8) bs), istream_of (drop (LENGTH('a) div 8) bs))"
  using assms by (simp add: readStream_good istream_of_def)

lemma readStream_string_of:
  assumes "unat (from_be [b1, b2] :: 16 word) = L" and "L \<le> length bs"
  shows "readStream_string le (istream_of (b1 # b2 # bs)) = (take L bs @ [0], istream_of (drop L bs))"
  using assms
  by (simp add: readStream_string_good [where ?b1.0 = b1 and ?b2.0 = b2 and bs = bs and L = L]
      istream_of_def)

lemmas from_be_eval = from_be_def word_rcat_def

lemma TagCompound_decode_END:
  "readStream_TagType le buf = (TAG_END, buf1) \<Longrightarrow> TagCompound_decode le al fuel val buf = Ok val buf1"
  by (simp add: TagCompound_decode.simps)

lemma TagCompound_decode_child:
  "readStream_TagType le buf = (type, buf1) \<Longrightarrow> type \<noteq> TAG_END \<Longrightarrow>
   readStream_string le buf1 = (name, buf2) \<Longrightarrow>
     TagCompound_decode le al (Suc fuel) val buf =
       (case makeTag le al fuel type (Some name) buf2 of
          Ok t buf3 \<Rightarrow> TagCompound_decode le al fuel (um_insert name t val) buf3
        | Throw e buf3 \<Rightarrow> Throw e buf3
        | OutOfFuel \<Rightarrow> OutOfFuel)"
  by (subst TagCompound_decode.simps) simp

lemma TagList_decode_nonpos:
  "readStream_TagType le buf = (elemType, buf1) \<Longrightarrow> readStream le buf1 = (L :: 32 word, buf2) \<Longrightarrow>
   sint L \<le> 0 \<Longrightarrow>
     TagList_decode le al fuel buf =
       Throw (runtime_error ''TagList::decode: not implement for variant length list'') buf2"
  by (simp add: TagList_decode.simps word_sle_eq)

lemma TagList_decode_pos:
  "readStream_TagType le buf = (elemType, buf1) \<Longrightarrow> readStream le buf1 = (L :: 32 word, buf2) \<Longrightarrow>
   0 < sint L \<Longrightarrow> al TAG_LIST (unat L) = None \<Longrightarrow>
     TagList_decode le al fuel buf =
       (case TagList_loop le al fuel elemType (unat L) buf2 of
          Ok val buf3 \<Rightarrow> Ok (elemType, val) buf3
        | Throw e buf3 \<Rightarrow> Throw e buf3
        | OutOfFuel \<Rightarrow> OutOfFuel)"
  by (simp add: TagList_decode.simps word_sle_eq)

lemma TagList_decode_resize_throws:
  "readStream_TagType le buf = (elemType, buf1) \<Longrightarrow> readStream le buf1 = (L :: 32 word, buf2) \<Longrightarrow>
   0 < sint L \<Longrightarrow> al TAG_LIST (unat L) = Some e \<Longrightarrow>
     TagList_decode le al fuel buf = Throw e buf2"
  by (simp add: TagList_decode.simps word_sle_eq)

lemma length_TagArray_elems:
  "length (fst (TagArray_elems le n buf :: 'a::len word list \<times> istream)) = n"
  by (induction n arbitrary: buf) (simp_all add: split_def Let_def)

lemma TagArray_elems_pos:
  "0 < n \<Longrightarrow>
     (TagArray_elems le n buf :: 'a::len word list \<times> istream) =
       (let (elem, buf1) = readStream le buf;
            (rest, buf2) = TagArray_elems le (n - 1) buf1
        in (elem # rest, buf2))"
  by (cases n) simp_all

lemma unread_read_tmp_le: "length (unread (snd (read_tmp n buf))) \<le> length (unread buf)"
  by (simp add: read_tmp_def istream_read_def uninitialised_def)

lemma unread_readStream_le:
  "length (unread (snd (readStream le buf :: 'a::len word \<times> istream))) \<le> length (unread buf)"
  by (simp add: readStream_def istream_read_def uninitialised_def split_def Let_def)

lemma unread_TagArray_elems_le:
  "length (unread (snd (TagArray_elems le n buf :: 'a::len word list \<times> istream))) \<le> length (unread buf)"
proof (induction n arbitrary: buf)
  case 0
  show ?case by simp
next
  case (Suc n)
  have "length (unread (snd (TagArray_elems le n (snd (readStream le buf :: 'a word \<times> istream))
            :: 'a word list \<times> istream)))
          \<le> length (unread (snd (readStream le buf :: 'a word \<times> istream)))"
    by (rule Suc.IH)
  also have "\<dots> \<le> length (unread buf)"
    by (rule unread_readStream_le)
  finally show ?case
    by (simp add: split_def Let_def)
qed

lemma TagArray_decode_zero:
  "readStream le buf = (0 :: 32 word, buf1) \<Longrightarrow>
     (TagArray_decode le al tt buf :: ('a::len word list) result) = Ok [] buf1"
  by (simp add: TagArray_decode_def)

lemma TagArray_decode_nonzero:
  "readStream le buf = (len :: 32 word, buf1) \<Longrightarrow> len \<noteq> 0 \<Longrightarrow> al tt (unat len) = None \<Longrightarrow>
     (TagArray_decode le al tt buf :: ('a::len word list) result) =
       Ok (fst (TagArray_elems le (unat len) buf1 :: 'a word list \<times> istream))
          (snd (TagArray_elems le (unat len) buf1 :: 'a word list \<times> istream))"
  by (simp add: TagArray_decode_def split_def Let_def)

lemma TagArray_decode_resize_throws:
  "readStream le buf = (len :: 32 word, buf1) \<Longrightarrow> len \<noteq> 0 \<Longrightarrow> al tt (unat len) = Some e \<Longrightarrow>
     (TagArray_decode le al tt buf :: ('a::len word list) result) = Throw e buf1"
  by (simp add: TagArray_decode_def)

lemma length_encode_numeric: "length (encode_numeric (v :: 'a::len word)) = LENGTH('a) div 8"
  by (simp add: encode_numeric_def length_to_be)

lemma readStream_encode_numeric:
  assumes "8 dvd LENGTH('a::len)" and "good buf" and "unread buf = encode_numeric (v :: 'a word) @ rest"
  shows "readStream le buf =
           (v, buf\<lparr>unread := rest, indet := (\<lambda>i. indet buf (i + LENGTH('a) div 8))\<rparr>)"
  using assms
  by (simp add: readStream_good length_encode_numeric)
     (simp add: encode_numeric_def from_be_to_be)








lemma TagCompound_decode_no_fuel:
  "readStream_TagType le buf = (type, buf1) \<Longrightarrow> type \<noteq> TAG_END \<Longrightarrow>
     TagCompound_decode le al 0 val buf = OutOfFuel"
  by (subst TagCompound_decode.simps) simp

lemma TagCompound_decode_cases:
  assumes ok: "TagCompound_decode le al fuel val buf = Ok val' buf'"
  obtains (END) "val' = val" "readStream_TagType le buf = (TAG_END, buf')"
  | (child) fuel' type buf1 name buf2 t buf3 where
      "fuel = Suc fuel'" "readStream_TagType le buf = (type, buf1)" "type \<noteq> TAG_END"
      "readStream_string le buf1 = (name, buf2)"
      "makeTag le al fuel' type (Some name) buf2 = Ok t buf3"
      "TagCompound_decode le al fuel' (um_insert name t val) buf3 = Ok val' buf'"
proof -
  obtain type buf1 where r: "readStream_TagType le buf = (type, buf1)"
    by (cases "readStream_TagType le buf")
  show thesis
  proof (cases "type = TAG_END")
    case True
    with r ok have "val' = val" "buf' = buf1"
      by (simp_all add: TagCompound_decode_END)
    with r True show thesis by (intro END) simp_all
  next
    case False
    show thesis
    proof (cases fuel)
      case 0
      with ok TagCompound_decode_no_fuel [OF r False] show thesis by simp
    next
      case (Suc fuel')
      obtain name buf2 where n: "readStream_string le buf1 = (name, buf2)"
        by (cases "readStream_string le buf1")
      from ok Suc TagCompound_decode_child [OF r False n]
      have c: "(case makeTag le al fuel' type (Some name) buf2 of
                 Ok t buf3 \<Rightarrow> TagCompound_decode le al fuel' (um_insert name t val) buf3
               | Throw e buf3 \<Rightarrow> Throw e buf3
               | OutOfFuel \<Rightarrow> OutOfFuel) = Ok val' buf'"
        by simp
      then obtain t buf3 where m: "makeTag le al fuel' type (Some name) buf2 = Ok t buf3"
        by (cases "makeTag le al fuel' type (Some name) buf2") simp_all
      with c have "TagCompound_decode le al fuel' (um_insert name t val) buf3 = Ok val' buf'"
        by simp
      with Suc r False n m show thesis by (rule child)
    qed
  qed
qed


lemma map_of_um_insert:
  "map_of m k = Some t0 \<Longrightarrow> map_of (um_insert k' v m) k = Some t0"
  by (simp add: um_insert_def)

lemma um_insert_present: "map_of m k = Some t0 \<Longrightarrow> um_insert k v m = m"
  by (auto simp: um_insert_def dest: map_of_SomeD intro: rev_image_eqI)

lemma TagCompound_decode_keeps:
  "TagCompound_decode le al fuel val buf = Ok val' buf' \<Longrightarrow> map_of val k = Some t0 \<Longrightarrow>
     map_of val' k = Some t0"
proof (induction fuel arbitrary: val buf)
  case 0
  from "0.prems"(1) show ?case
    by (cases rule: TagCompound_decode_cases) (use "0.prems"(2) in simp_all)
next
  case (Suc fuel)
  from Suc.prems(1) show ?case
  proof (cases rule: TagCompound_decode_cases)
    case END
    with Suc.prems(2) show ?thesis by simp
  next
    case (child fuel' type buf1 name buf2 t buf3)
    then have d: "TagCompound_decode le al fuel (um_insert name t val) buf3 = Ok val' buf'" by simp
    have "map_of (um_insert name t val) k = Some t0"
      using Suc.prems(2) by (rule map_of_um_insert)
    with d show ?thesis by (rule Suc.IH)
  qed
qed

lemma readStream_string_of_eval:
  assumes "unat (from_be [b1, b2] :: 16 word) \<le> length bs"
  shows "readStream_string le (istream_of (b1 # b2 # bs)) =
           (take (unat (from_be [b1, b2] :: 16 word)) bs @ [0],
            istream_of (drop (unat (from_be [b1, b2] :: 16 word)) bs))"
  using assms by (rule readStream_string_of [OF refl])

lemmas makeTag_eval =
  makeTag_leaf [unfolded TagType_defs] makeTag_LIST [unfolded TagType_defs]
  makeTag_COMPOUND [unfolded TagType_defs]

lemmas decode_eval =
  readDocument_def readStream_TagType_of readStream_string_of_eval readStream_of from_be_eval
  makeTag_eval TagSingle_def TagString_def
  TagCompound_decode.simps TagList_decode.simps um_insert_def TagType_defs word_sle_eq

section \<open>The bound on the recursion\<close>

text \<open>
  The bound only cuts a computation off: an outcome other than \<open>OutOfFuel\<close> stays the
  same under every larger bound.
\<close>

lemma TagList_decode_unfold:
  "TagList_decode le al fuel buf =
     (if fst (readStream le (snd (readStream_TagType le buf)) :: 32 word \<times> istream) \<le>s 0
      then Throw (runtime_error ''TagList::decode: not implement for variant length list'')
             (snd (readStream le (snd (readStream_TagType le buf)) :: 32 word \<times> istream))
      else (case al TAG_LIST
                   (unat (fst (readStream le (snd (readStream_TagType le buf)) :: 32 word \<times> istream))) of
              Some e \<Rightarrow>
                Throw e (snd (readStream le (snd (readStream_TagType le buf)) :: 32 word \<times> istream))
            | None \<Rightarrow>
               (case TagList_loop le al fuel (fst (readStream_TagType le buf))
                   (unat (fst (readStream le (snd (readStream_TagType le buf)) :: 32 word \<times> istream)))
                   (snd (readStream le (snd (readStream_TagType le buf)) :: 32 word \<times> istream)) of
                  Ok val buf3 \<Rightarrow> Ok (fst (readStream_TagType le buf), val) buf3
                | Throw e buf3 \<Rightarrow> Throw e buf3
                | OutOfFuel \<Rightarrow> OutOfFuel)))"
  by (simp add: TagList_decode.simps split_def Let_def)

lemma makeTag_more_fuel_step:
  assumes L: "\<And>et n buf. TagList_loop le al f et n buf \<noteq> OutOfFuel \<Longrightarrow>
                TagList_loop le al (Suc f) et n buf = TagList_loop le al f et n buf"
    and C: "\<And>val buf. TagCompound_decode le al f val buf \<noteq> OutOfFuel \<Longrightarrow>
                TagCompound_decode le al (Suc f) val buf = TagCompound_decode le al f val buf"
    and r: "makeTag le al f type nm buf \<noteq> OutOfFuel"
  shows "makeTag le al (Suc f) type nm buf = makeTag le al f type nm buf"
proof (cases type rule: TagType_cases)
  case 1
  then show ?thesis by (simp add: makeTag_END)
next
  case 10
  let ?n = "unat (fst (readStream le (snd (readStream_TagType le buf)) :: 32 word \<times> istream))"
  let ?b = "snd (readStream le (snd (readStream_TagType le buf)) :: 32 word \<times> istream)"
  let ?et = "fst (readStream_TagType le buf)"
  show ?thesis
  proof (cases "fst (readStream le (snd (readStream_TagType le buf)) :: 32 word \<times> istream) \<le>s 0")
    case True
    then show ?thesis
      using 10 by (simp add: makeTag_LIST TagList_decode_unfold)
  next
    case False
    show ?thesis
    proof (cases "al TAG_LIST ?n")
      case (Some e)
      then show ?thesis
        using 10 False by (simp add: makeTag_LIST TagList_decode_unfold)
    next
      case None
      with False r 10 have "TagList_loop le al f ?et ?n ?b \<noteq> OutOfFuel"
        by (auto simp: makeTag_LIST TagList_decode_unfold)
      then have "TagList_loop le al (Suc f) ?et ?n ?b = TagList_loop le al f ?et ?n ?b"
        by (rule L)
      then show ?thesis
        using 10 False None by (simp add: makeTag_LIST TagList_decode_unfold)
    qed
  qed
next
  case 11
  with r have "TagCompound_decode le al f [] buf \<noteq> OutOfFuel"
    by (auto simp: makeTag_COMPOUND)
  then have "TagCompound_decode le al (Suc f) [] buf = TagCompound_decode le al f [] buf"
    by (rule C)
  then show ?thesis
    using 11 by (simp add: makeTag_COMPOUND)
next
  case 14
  then show ?thesis by (simp add: makeTag_unknown)
qed (simp_all add: makeTag_leaf)

lemma TagList_loop_more_fuel_step:
  assumes Q: "\<And>buf. makeTag le al f et None buf \<noteq> OutOfFuel \<Longrightarrow>
                makeTag le al (Suc f) et None buf = makeTag le al f et None buf"
  shows "TagList_loop le al (Suc f) et n buf \<noteq> OutOfFuel \<Longrightarrow>
           TagList_loop le al (Suc (Suc f)) et n buf = TagList_loop le al (Suc f) et n buf"
proof (induction n arbitrary: buf)
  case 0
  show ?case by simp
next
  case (Suc n)
  show ?case
  proof (cases "makeTag le al f et None buf")
    case (Ok t buf1)
    then have m: "makeTag le al (Suc f) et None buf = Ok t buf1"
      using Q [of buf] by simp
    from Suc.prems Ok have "TagList_loop le al (Suc f) et n buf1 \<noteq> OutOfFuel"
      by (auto split: result.splits)
    then have "TagList_loop le al (Suc (Suc f)) et n buf1 = TagList_loop le al (Suc f) et n buf1"
      by (rule Suc.IH)
    with Ok m show ?thesis by simp
  next
    case (Throw e buf1)
    then have "makeTag le al (Suc f) et None buf = Throw e buf1"
      using Q [of buf] by simp
    with Throw show ?thesis by simp
  next
    case OutOfFuel
    with Suc.prems show ?thesis by simp
  qed
qed

lemma TagCompound_decode_more_fuel_step:
  assumes Q: "\<And>type nm buf. makeTag le al f type nm buf \<noteq> OutOfFuel \<Longrightarrow>
                makeTag le al (Suc f) type nm buf = makeTag le al f type nm buf"
    and C: "\<And>val buf. TagCompound_decode le al f val buf \<noteq> OutOfFuel \<Longrightarrow>
                TagCompound_decode le al (Suc f) val buf = TagCompound_decode le al f val buf"
    and r: "TagCompound_decode le al (Suc f) val buf \<noteq> OutOfFuel"
  shows "TagCompound_decode le al (Suc (Suc f)) val buf = TagCompound_decode le al (Suc f) val buf"
proof -
  obtain type buf1 where t: "readStream_TagType le buf = (type, buf1)"
    by (cases "readStream_TagType le buf")
  show ?thesis
  proof (cases "type = TAG_END")
    case True
    with t show ?thesis by (simp add: TagCompound_decode_END)
  next
    case False
    obtain name buf2 where n: "readStream_string le buf1 = (name, buf2)"
      by (cases "readStream_string le buf1")
    note s1 = TagCompound_decode_child [where al = al and fuel = f and val = val, OF t False n]
    note s2 = TagCompound_decode_child [where al = al and fuel = "Suc f" and val = val, OF t False n]
    show ?thesis
    proof (cases "makeTag le al f type (Some name) buf2")
      case (Ok x buf3)
      then have m: "makeTag le al (Suc f) type (Some name) buf2 = Ok x buf3"
        using Q [of type "Some name" buf2] by simp
      from r s1 Ok have "TagCompound_decode le al f (um_insert name x val) buf3 \<noteq> OutOfFuel"
        by simp
      then have "TagCompound_decode le al (Suc f) (um_insert name x val) buf3 =
                   TagCompound_decode le al f (um_insert name x val) buf3"
        by (rule C)
      with s1 s2 Ok m show ?thesis by simp
    next
      case (Throw e buf3)
      then have "makeTag le al (Suc f) type (Some name) buf2 = Throw e buf3"
        using Q [of type "Some name" buf2] by simp
      with s1 s2 Throw show ?thesis by simp
    next
      case OutOfFuel
      with r s1 show ?thesis by simp
    qed
  qed
qed

lemma TagCompound_decode_more_fuel_0:
  assumes "TagCompound_decode le al 0 val buf \<noteq> OutOfFuel"
  shows "TagCompound_decode le al (Suc 0) val buf = TagCompound_decode le al 0 val buf"
proof -
  obtain type buf1 where t: "readStream_TagType le buf = (type, buf1)"
    by (cases "readStream_TagType le buf")
  show ?thesis
  proof (cases "type = TAG_END")
    case True
    with t show ?thesis by (simp add: TagCompound_decode_END)
  next
    case False
    with assms TagCompound_decode_no_fuel [OF t False] show ?thesis by simp
  qed
qed

lemma TagList_loop_more_fuel_0:
  assumes "TagList_loop le al 0 et n buf \<noteq> OutOfFuel"
  shows "TagList_loop le al (Suc 0) et n buf = TagList_loop le al 0 et n buf"
  using assms by (cases n) simp_all

lemma more_fuel_step:
  "(\<forall>type nm buf. makeTag le al f type nm buf \<noteq> OutOfFuel \<longrightarrow>
       makeTag le al (Suc f) type nm buf = makeTag le al f type nm buf)
   \<and> (\<forall>et n buf. TagList_loop le al f et n buf \<noteq> OutOfFuel \<longrightarrow>
       TagList_loop le al (Suc f) et n buf = TagList_loop le al f et n buf)
   \<and> (\<forall>val buf. TagCompound_decode le al f val buf \<noteq> OutOfFuel \<longrightarrow>
       TagCompound_decode le al (Suc f) val buf = TagCompound_decode le al f val buf)"
proof (induction f)
  case 0
  have M: "makeTag le al (Suc 0) type nm buf = makeTag le al 0 type nm buf"
    if "makeTag le al 0 type nm buf \<noteq> OutOfFuel" for type nm buf
    using TagList_loop_more_fuel_0 TagCompound_decode_more_fuel_0 that
    by (rule makeTag_more_fuel_step)
  show ?case
    by (intro conjI allI impI)
       (erule M, erule TagList_loop_more_fuel_0, erule TagCompound_decode_more_fuel_0)
next
  case (Suc f)
  note Q = Suc.IH [THEN conjunct1, rule_format]
    and C = Suc.IH [THEN conjunct2, THEN conjunct2, rule_format]
  have L': "TagList_loop le al (Suc (Suc f)) et n buf = TagList_loop le al (Suc f) et n buf"
    if "TagList_loop le al (Suc f) et n buf \<noteq> OutOfFuel" for et n buf
    using Q that by (rule TagList_loop_more_fuel_step)
  have C': "TagCompound_decode le al (Suc (Suc f)) val buf = TagCompound_decode le al (Suc f) val buf"
    if "TagCompound_decode le al (Suc f) val buf \<noteq> OutOfFuel" for val buf
    using Q C that by (rule TagCompound_decode_more_fuel_step)
  have M': "makeTag le al (Suc (Suc f)) type nm buf = makeTag le al (Suc f) type nm buf"
    if "makeTag le al (Suc f) type nm buf \<noteq> OutOfFuel" for type nm buf
    using L' C' that by (rule makeTag_more_fuel_step)
  show ?case
    by (intro conjI allI impI) (erule M', erule L', erule C')
qed

lemma makeTag_more_fuel:
  "makeTag le al f type nm buf \<noteq> OutOfFuel \<Longrightarrow>
     makeTag le al (f + k) type nm buf = makeTag le al f type nm buf"
proof (induction k)
  case 0
  show ?case by simp
next
  case (Suc k)
  then have "makeTag le al (f + k) type nm buf \<noteq> OutOfFuel" by simp
  then have "makeTag le al (Suc (f + k)) type nm buf = makeTag le al (f + k) type nm buf"
    by (rule more_fuel_step [THEN conjunct1, rule_format])
  with Suc show ?case by simp
qed

lemma readDocument_more_fuel:
  "readDocument le al f buf \<noteq> OutOfFuel \<Longrightarrow> readDocument le al (f + k) buf = readDocument le al f buf"
  by (auto simp: readDocument_def split_def Let_def makeTag_more_fuel)

section \<open>Decoding an encoded tree\<close>

lemma unat_length16: "n < 65536 \<Longrightarrow> unat (word_of_nat n :: 16 word) = n"
  by (simp add: unat_of_nat)

lemma unat_length32: "n < 2 ^ 32 \<Longrightarrow> unat (word_of_nat n :: 32 word) = n"
  by (simp add: unat_of_nat)

lemma sint_length32: "n < 2 ^ 31 \<Longrightarrow> sint (word_of_nat n :: 32 word) = int n"
proof -
  assume n: "n < 2 ^ 31"
  have "signed_take_bit 31 (int n) = int n"
    by (rule signed_take_bit_int_eq_self) (use n in simp_all)
  then show ?thesis
    by (simp add: signed_of_nat)
qed

lemma read_numeric:
  assumes "8 dvd LENGTH('a::len)" and "good buf" and "unread buf = encode_numeric (v :: 'a word) @ rest"
  shows "\<exists>buf'. readStream le buf = (v, buf') \<and> good buf' \<and> unread buf' = rest"
  using readStream_encode_numeric [OF assms, of le] assms(2) by simp

lemma read_TagType:
  assumes "good buf" and "unread buf = ty # rest"
  shows "\<exists>buf'. readStream_TagType le buf = (ty, buf') \<and> good buf' \<and> unread buf' = rest"
  using readStream_TagType_good [OF assms, of le] assms(1) by simp

lemma read_text:
  assumes "length s < 65536" and "good buf" and "unread buf = encode_text s @ rest"
  shows "\<exists>buf'. readStream_string le buf = (decoded_text s, buf') \<and> good buf' \<and> unread buf' = rest"
proof -
  have u: "unread buf = encode_numeric (word_of_nat (length s) :: 16 word) @ (s @ rest)"
    using assms(3) by (simp add: encode_text_def)
  obtain buf1 where r: "readStream le buf = (word_of_nat (length s) :: 16 word, buf1)"
      and g: "good buf1" and u1: "unread buf1 = s @ rest"
    using read_numeric [OF _ assms(2) u, of le] by auto
  have "istream_read (replicate (length s + 1) 0) (length s) buf1 =
          (s @ [0], buf1\<lparr>unread := rest\<rparr>)"
    using g u1 by (simp add: istream_read_def drop_pad)
  then show ?thesis
    using r g assms(1)
    by (simp add: readStream_string_def unat_length16 decoded_text_def)
qed

lemma TagArray_elems_encode:
  assumes "8 dvd LENGTH('a::len)"
  shows "good buf \<Longrightarrow> unread buf = concat (map encode_numeric (vs :: 'a word list)) @ rest \<Longrightarrow>
           \<exists>buf'. TagArray_elems le (length vs) buf = (vs, buf') \<and> good buf' \<and> unread buf' = rest"
proof (induction vs arbitrary: buf)
  case Nil
  then show ?case by simp
next
  case (Cons v vs)
  from Cons.prems have u: "unread buf = encode_numeric v @ (concat (map encode_numeric vs) @ rest)"
    by simp
  obtain buf1 where r: "readStream le buf = (v, buf1)" and g: "good buf1"
      and u1: "unread buf1 = concat (map encode_numeric vs) @ rest"
    using read_numeric [OF assms Cons.prems(1) u, of le] by auto
  from Cons.IH [OF g u1] obtain buf' where
    "TagArray_elems le (length vs) buf1 = (vs, buf')" "good buf'" "unread buf' = rest"
    by auto
  with r show ?case by simp
qed

lemma TagArray_decode_encode:
  assumes "8 dvd LENGTH('a::len)" and "length (vs :: 'a word list) < 2 ^ 32"
    and "vs \<noteq> [] \<longrightarrow> al tt (length vs) = None"
    and "good buf"
    and "unread buf = encode_numeric (word_of_nat (length vs) :: 32 word)
                        @ concat (map encode_numeric vs) @ rest"
  shows "\<exists>buf'. TagArray_decode le al tt buf = Ok vs buf' \<and> good buf' \<and> unread buf' = rest"
proof -
  obtain buf1 where r: "readStream le buf = (word_of_nat (length vs) :: 32 word, buf1)"
      and g: "good buf1" and u1: "unread buf1 = concat (map encode_numeric vs) @ rest"
    using read_numeric [OF _ assms(4,5), of le] by auto
  show ?thesis
  proof (cases "vs = []")
    case True
    with r g u1 show ?thesis by (simp add: TagArray_decode_zero)
  next
    case False
    then have n: "(word_of_nat (length vs) :: 32 word) \<noteq> 0"
      using assms(2) unat_length32 [of "length vs"] by (metis length_0_conv unat_0)
    have a: "al tt (unat (word_of_nat (length vs) :: 32 word)) = None"
      using False assms(2,3) by (simp add: unat_length32)
    obtain buf' where e: "TagArray_elems le (length vs) buf1 = (vs, buf')"
        and g': "good buf'" and u': "unread buf' = rest"
      using TagArray_elems_encode [OF assms(1) g u1, of le] by auto
    have "TagArray_decode le al tt buf = Ok vs buf'"
      using TagArray_decode_nonzero [where al = al and tt = tt and 'a = 'a, OF r n a] e assms(2)
      by (simp add: unat_length32)
    with g' u' show ?thesis by simp
  qed
qed

lemma decodesD:
  "decodes le al t \<Longrightarrow> fuel_needed t \<le> fuel \<Longrightarrow> good buf \<Longrightarrow>
   unread buf = encode_payload t @ rest \<Longrightarrow>
     \<exists>buf'. makeTag le al fuel (getTagType t) nm buf =
               Ok (Tag (getTagType t) nm (getValue (decoded t))) buf'
            \<and> good buf' \<and> unread buf' = rest"
  unfolding decodes_def by blast

lemma decoded_sel:
  "decoded t = Tag (getTagType t) (map_option decoded_text (getName t)) (getValue (decoded t))"
proof (cases t)
  case (Tag ty nm p)
  then show ?thesis by (cases p) simp_all
qed

lemma encodable_kind:
  "encodable al t \<Longrightarrow> getTagType t = payload_kind (getValue t)"
proof (cases t)
  case (Tag ty nm p)
  assume "encodable al t"
  with Tag show ?thesis by (cases p) simp_all
qed

lemma payload_kind_not_END: "payload_kind p \<noteq> TAG_END"
  by (cases p) (simp_all add: TagType_defs)

lemma insert_all_Cons:
  "insert_all m (kv # kvs) = insert_all (um_insert (fst kv) (snd kv) m) kvs"
  by (simp add: insert_all_def)

lemma insert_all_Nil: "insert_all m [] = m"
  by (simp add: insert_all_def)

lemma TagList_loop_encode:
  assumes "\<forall>t \<in> set ts. decodes le al t \<and> getTagType t = et \<and> getName t = None"
    and "sum_list (map fuel_needed ts) \<le> f"
    and "good buf"
    and "unread buf = concat (map encode_payload ts) @ rest"
  shows "\<exists>buf'. TagList_loop le al (Suc f) et (length ts) buf = Ok (map decoded ts) buf'
               \<and> good buf' \<and> unread buf' = rest"
  using assms
proof (induction ts arbitrary: buf)
  case Nil
  then show ?case by simp
next
  case (Cons t ts)
  have d: "decodes le al t" and ty: "getTagType t = et" and nm: "getName t = None"
    using Cons.prems(1) by simp_all
  have f: "fuel_needed t \<le> f" and fs: "sum_list (map fuel_needed ts) \<le> f"
    using Cons.prems(2) by simp_all
  have u: "unread buf = encode_payload t @ (concat (map encode_payload ts) @ rest)"
    using Cons.prems(4) by simp
  obtain buf1 where
    m: "makeTag le al f et None buf = Ok (Tag et None (getValue (decoded t))) buf1"
    and g: "good buf1" and u1: "unread buf1 = concat (map encode_payload ts) @ rest"
    using decodesD [OF d f Cons.prems(3) u, of None] ty by auto
  have dt: "decoded t = Tag et None (getValue (decoded t))"
    using decoded_sel [of t] ty nm by simp
  have "\<forall>t \<in> set ts. decodes le al t \<and> getTagType t = et \<and> getName t = None"
    using Cons.prems(1) by simp
  from Cons.IH [OF this fs g u1] obtain buf' where
    l: "TagList_loop le al (Suc f) et (length ts) buf1 = Ok (map decoded ts) buf'"
    and g': "good buf'" and u': "unread buf' = rest"
    by auto
  have "TagList_loop le al (Suc f) et (length (t # ts)) buf = Ok (map decoded (t # ts)) buf'"
    using m l dt by simp
  with g' u' show ?case by blast
qed

lemma encode_keyed_pair:
  "encode_keyed (k, t) = getTagType t # encode_text k @ encode_payload t"
  by (simp add: encode_keyed_def)

lemma TagCompound_decode_encode:
  assumes "\<forall>kt \<in> set cs. decodes le al (snd kt) \<and> length (fst kt) < 65536
                          \<and> getName (snd kt) = Some (fst kt) \<and> getTagType (snd kt) \<noteq> TAG_END"
    and "sum_list (map (\<lambda>kt. Suc (fuel_needed (snd kt))) cs) \<le> fuel"
    and "good buf"
    and "unread buf = concat (map encode_keyed cs) @ TAG_END # rest"
  shows "\<exists>buf'. TagCompound_decode le al fuel val buf =
                  Ok (insert_all val (map (\<lambda>kt. (decoded_text (fst kt), decoded (snd kt))) cs)) buf'
               \<and> good buf' \<and> unread buf' = rest"
  using assms
proof (induction cs arbitrary: fuel val buf)
  case Nil
  then obtain buf' where "readStream_TagType le buf = (TAG_END, buf')" "good buf'" "unread buf' = rest"
    using read_TagType [of buf TAG_END rest le] by auto
  then show ?case
    by (auto simp: TagCompound_decode_END insert_all_Nil)
next
  case (Cons kt cs)
  obtain k t where kt: "kt = (k, t)" by (cases kt)
  have d: "decodes le al t" and len: "length k < 65536" and nm: "getName t = Some k"
    and ne: "getTagType t \<noteq> TAG_END"
    using Cons.prems(1) kt by simp_all
  obtain f where fuel: "fuel = Suc f" and f: "fuel_needed t \<le> f"
    and fs: "sum_list (map (\<lambda>kt. Suc (fuel_needed (snd kt))) cs) \<le> f"
    using Cons.prems(2) kt by (cases fuel) simp_all
  have u: "unread buf = getTagType t # (encode_text k @ encode_payload t
             @ concat (map encode_keyed cs) @ TAG_END # rest)"
    using Cons.prems(4) kt by (simp add: encode_keyed_pair)
  obtain buf1 where r1: "readStream_TagType le buf = (getTagType t, buf1)" and g1: "good buf1"
    and u1: "unread buf1 = encode_text k @ (encode_payload t
               @ concat (map encode_keyed cs) @ TAG_END # rest)"
    using read_TagType [OF Cons.prems(3) u, of le] by auto
  obtain buf2 where r2: "readStream_string le buf1 = (decoded_text k, buf2)" and g2: "good buf2"
    and u2: "unread buf2 = encode_payload t @ (concat (map encode_keyed cs) @ TAG_END # rest)"
    using read_text [OF len g1 u1, of le] by auto
  obtain buf3 where
    m: "makeTag le al f (getTagType t) (Some (decoded_text k)) buf2 =
          Ok (Tag (getTagType t) (Some (decoded_text k)) (getValue (decoded t))) buf3"
    and g3: "good buf3" and u3: "unread buf3 = concat (map encode_keyed cs) @ TAG_END # rest"
    using decodesD [OF d f g2 u2, of "Some (decoded_text k)"] by auto
  have dt: "decoded t = Tag (getTagType t) (Some (decoded_text k)) (getValue (decoded t))"
    using decoded_sel [of t] nm by simp
  have "\<forall>kt \<in> set cs. decodes le al (snd kt) \<and> length (fst kt) < 65536
                          \<and> getName (snd kt) = Some (fst kt) \<and> getTagType (snd kt) \<noteq> TAG_END"
    using Cons.prems(1) by simp
  from Cons.IH [OF this fs g3 u3, of "um_insert (decoded_text k) (decoded t) val"]
  obtain buf' where
    l: "TagCompound_decode le al f (um_insert (decoded_text k) (decoded t) val) buf3 =
          Ok (insert_all (um_insert (decoded_text k) (decoded t) val)
                (map (\<lambda>kt. (decoded_text (fst kt), decoded (snd kt))) cs)) buf'"
    and g': "good buf'" and u': "unread buf' = rest"
    by auto
  have "TagCompound_decode le al fuel val buf =
          Ok (insert_all val (map (\<lambda>kt. (decoded_text (fst kt), decoded (snd kt))) (kt # cs))) buf'"
    using TagCompound_decode_child [where al = al and fuel = f and val = val, OF r1 ne r2]
      m l dt fuel kt
    by (simp add: insert_all_Cons)
  with g' u' show ?case by blast
qed

lemma insert_all_distinct:
  "distinct (map fst (m @ kvs)) \<Longrightarrow> insert_all m kvs = m @ kvs"
proof (induction kvs arbitrary: m)
  case Nil
  show ?case by (simp add: insert_all_Nil)
next
  case (Cons kv kvs)
  have "fst kv \<notin> fst ` set m" using Cons.prems by auto
  then have u: "um_insert (fst kv) (snd kv) m = m @ [kv]"
    by (simp add: um_insert_def)
  have "distinct (map fst ((m @ [kv]) @ kvs))" using Cons.prems by simp
  from Cons.IH [OF this] u show ?case
    by (simp add: insert_all_Cons)
qed

lemma inj_decoded_text: "inj decoded_text"
  by (simp add: inj_def decoded_text_def)

lemma child_in_payload:
  "t \<in> set ts \<Longrightarrow> t \<in> set_payload (ListVal et ts)"
  "kt \<in> set m \<Longrightarrow> snd kt \<in> set_payload (CompoundVal m)"
  by (auto simp: snds.simps intro: bexI [of _ kt])

lemma decodes_numeric:
  assumes "8 dvd LENGTH('a::len)"
    and mk: "\<And>fuel nm buf. makeTag le al fuel ty nm buf = TagSingle le ty (wrap :: 'a word \<Rightarrow> Tag payload) nm buf"
    and enc: "encode_payload t = encode_numeric v" and ty: "getTagType t = ty"
    and dec: "getValue (decoded t) = wrap v"
  shows "decodes le al t"
  unfolding decodes_def
proof (intro allI impI)
  fix fuel nm and buf :: istream and rest
  assume "good buf" and "unread buf = encode_payload t @ rest"
  then obtain buf' where "readStream le buf = (v, buf')" "good buf'" "unread buf' = rest"
    using read_numeric [OF assms(1), of buf v rest le] enc by auto
  then show "\<exists>buf'. makeTag le al fuel (getTagType t) nm buf =
                     Ok (Tag (getTagType t) nm (getValue (decoded t))) buf'
                  \<and> good buf' \<and> unread buf' = rest"
    by (simp add: ty mk TagSingle_def dec)
qed

lemma decodes_array:
  assumes "8 dvd LENGTH('a::len)"
    and mk: "\<And>fuel nm buf. makeTag le al fuel ty nm buf = TagArray le al ty (wrap :: 'a word list \<Rightarrow> Tag payload) nm buf"
    and enc: "encode_payload t = encode_numeric (word_of_nat (length vs) :: 32 word)
                                   @ concat (map encode_numeric vs)"
    and ty: "getTagType t = ty"
    and dec: "getValue (decoded t) = wrap vs"
    and len: "length vs < 2 ^ 32" and al: "vs \<noteq> [] \<longrightarrow> al ty (length vs) = None"
  shows "decodes le al t"
  unfolding decodes_def
proof (intro allI impI)
  fix fuel nm and buf :: istream and rest
  assume g: "good buf" and "unread buf = encode_payload t @ rest"
  then have u: "unread buf = encode_numeric (word_of_nat (length vs) :: 32 word)
                   @ concat (map encode_numeric vs) @ rest"
    using enc by simp
  obtain buf' where "TagArray_decode le al ty buf = Ok vs buf'" "good buf'" "unread buf' = rest"
    using TagArray_decode_encode [where al = al and tt = ty and le = le, OF assms(1) len al g u] by auto
  then show "\<exists>buf'. makeTag le al fuel (getTagType t) nm buf =
                     Ok (Tag (getTagType t) nm (getValue (decoded t))) buf'
                  \<and> good buf' \<and> unread buf' = rest"
    by (simp add: ty mk TagArray_def dec)
qed

lemma decodes_string:
  assumes "length s < 65536"
  shows "decodes le al (Tag TAG_STRING nm0 (StringVal s))"
  unfolding decodes_def
proof (intro allI impI)
  fix fuel nm and buf :: istream and rest
  assume g: "good buf" and "unread buf = encode_payload (Tag TAG_STRING nm0 (StringVal s)) @ rest"
  then have u: "unread buf = encode_text s @ rest" by simp
  obtain buf' where "readStream_string le buf = (decoded_text s, buf')" "good buf'" "unread buf' = rest"
    using read_text [OF assms g u, of le] by auto
  then show "\<exists>buf'. makeTag le al fuel (getTagType (Tag TAG_STRING nm0 (StringVal s))) nm buf =
                     Ok (Tag (getTagType (Tag TAG_STRING nm0 (StringVal s))) nm
                           (getValue (decoded (Tag TAG_STRING nm0 (StringVal s))))) buf'
                  \<and> good buf' \<and> unread buf' = rest"
    by (simp add: makeTag_leaf TagString_def)
qed

lemma decodes_list:
  assumes el: "\<forall>t \<in> set ts. decodes le al t \<and> getTagType t = et \<and> getName t = None"
    and ne: "ts \<noteq> []" and len: "length ts < 2 ^ 31" and al: "al TAG_LIST (length ts) = None"
  shows "decodes le al (Tag TAG_LIST nm0 (ListVal et ts))"
  unfolding decodes_def
proof (intro allI impI)
  fix fuel nm and buf :: istream and rest
  let ?L = "word_of_nat (length ts) :: 32 word"
  assume f: "fuel_needed (Tag TAG_LIST nm0 (ListVal et ts)) \<le> fuel" and g: "good buf"
    and "unread buf = encode_payload (Tag TAG_LIST nm0 (ListVal et ts)) @ rest"
  then have u: "unread buf = et # (encode_numeric ?L @ (concat (map encode_payload ts) @ rest))"
    by simp
  obtain f' where fuel: "fuel = Suc f'" and fs: "sum_list (map fuel_needed ts) \<le> f'"
    using f by (cases fuel) simp_all
  obtain buf1 where r1: "readStream_TagType le buf = (et, buf1)" and g1: "good buf1"
    and u1: "unread buf1 = encode_numeric ?L @ (concat (map encode_payload ts) @ rest)"
    using read_TagType [OF g u, of le] by auto
  obtain buf2 where r2: "readStream le buf1 = (?L, buf2)" and g2: "good buf2"
    and u2: "unread buf2 = concat (map encode_payload ts) @ rest"
    using read_numeric [OF _ g1 u1, of le] by auto
  have un: "unat ?L = length ts"
    using len by (simp add: unat_of_nat)
  have pos: "0 < sint ?L"
    using sint_length32 [OF len] ne by simp
  have a: "al TAG_LIST (unat ?L) = None"
    using al un by simp
  obtain buf' where
    l: "TagList_loop le al (Suc f') et (length ts) buf2 = Ok (map decoded ts) buf'"
    and g': "good buf'" and u': "unread buf' = rest"
    using TagList_loop_encode [OF el fs g2 u2] by auto
  have "TagList_decode le al fuel buf = Ok (et, map decoded ts) buf'"
    using TagList_decode_pos [where al = al and fuel = fuel, OF r1 r2 pos a] l un fuel by simp
  then show "\<exists>buf'. makeTag le al fuel (getTagType (Tag TAG_LIST nm0 (ListVal et ts))) nm buf =
                     Ok (Tag (getTagType (Tag TAG_LIST nm0 (ListVal et ts))) nm
                           (getValue (decoded (Tag TAG_LIST nm0 (ListVal et ts))))) buf'
                  \<and> good buf' \<and> unread buf' = rest"
    using g' u' by (simp add: makeTag_LIST)
qed

lemma decodes_compound:
  assumes ch: "\<forall>kt \<in> set m. decodes le al (snd kt) \<and> length (fst kt) < 65536
                          \<and> getName (snd kt) = Some (fst kt) \<and> getTagType (snd kt) \<noteq> TAG_END"
    and dist: "distinct (map fst m)"
  shows "decodes le al (Tag TAG_COMPOUND nm0 (CompoundVal m))"
  unfolding decodes_def
proof (intro allI impI)
  fix fuel nm and buf :: istream and rest
  let ?dm = "map (\<lambda>kt. (decoded_text (fst kt), decoded (snd kt))) m"
  assume f: "fuel_needed (Tag TAG_COMPOUND nm0 (CompoundVal m)) \<le> fuel" and g: "good buf"
    and "unread buf = encode_payload (Tag TAG_COMPOUND nm0 (CompoundVal m)) @ rest"
  then have u: "unread buf = concat (map encode_keyed m) @ TAG_END # rest"
    by (simp add: encode_keyed_def [abs_def])
  have fs: "sum_list (map (\<lambda>kt. Suc (fuel_needed (snd kt))) m) \<le> fuel"
    using f by simp
  obtain buf' where
    l: "TagCompound_decode le al fuel [] buf = Ok (insert_all [] ?dm) buf'"
    and g': "good buf'" and u': "unread buf' = rest"
    using TagCompound_decode_encode [OF ch fs g u, of "[]"] by auto
  have "inj_on decoded_text (set (map fst m))"
    by (rule inj_on_subset [OF inj_decoded_text]) simp
  with dist have "distinct (map decoded_text (map fst m))"
    by (simp only: distinct_map)
  moreover have "map fst ?dm = map decoded_text (map fst m)" by simp
  ultimately have "distinct (map fst ([] @ ?dm))"
    by (simp only: append_Nil)
  then have "insert_all [] ?dm = ?dm"
    using insert_all_distinct [of "[]" ?dm] by simp
  with l g' u'
  show "\<exists>buf'. makeTag le al fuel (getTagType (Tag TAG_COMPOUND nm0 (CompoundVal m))) nm buf =
                     Ok (Tag (getTagType (Tag TAG_COMPOUND nm0 (CompoundVal m))) nm
                           (getValue (decoded (Tag TAG_COMPOUND nm0 (CompoundVal m))))) buf'
                  \<and> good buf' \<and> unread buf' = rest"
    by (simp add: makeTag_COMPOUND)
qed

lemma encodable_not_END: "encodable al t \<Longrightarrow> getTagType t \<noteq> TAG_END"
  using encodable_kind [of al t] payload_kind_not_END [of "getValue t"] by simp

lemma encodable_decodes: "encodable al t \<Longrightarrow> decodes le al t"
proof (induction t)
  case (Tag ty nm0 p)
  show ?case
  proof (cases p)
    case (ByteVal v)
    with Tag.prems show ?thesis
      by (intro decodes_numeric [where wrap = ByteVal and v = v and ty = TAG_BYTE])
         (simp_all add: makeTag_leaf)
  next
    case (ShortVal v)
    with Tag.prems show ?thesis
      by (intro decodes_numeric [where wrap = ShortVal and v = v and ty = TAG_SHORT])
         (simp_all add: makeTag_leaf)
  next
    case (IntVal v)
    with Tag.prems show ?thesis
      by (intro decodes_numeric [where wrap = IntVal and v = v and ty = TAG_INT])
         (simp_all add: makeTag_leaf)
  next
    case (LongVal v)
    with Tag.prems show ?thesis
      by (intro decodes_numeric [where wrap = LongVal and v = v and ty = TAG_LONG])
         (simp_all add: makeTag_leaf)
  next
    case (FloatVal v)
    with Tag.prems show ?thesis
      by (intro decodes_numeric [where wrap = FloatVal and v = v and ty = TAG_FLOAT])
         (simp_all add: makeTag_leaf)
  next
    case (DoubleVal v)
    with Tag.prems show ?thesis
      by (intro decodes_numeric [where wrap = DoubleVal and v = v and ty = TAG_DOUBLE])
         (simp_all add: makeTag_leaf)
  next
    case (StringVal s)
    with Tag.prems show ?thesis
      by (simp add: decodes_string)
  next
    case (ByteArrayVal vs)
    with Tag.prems show ?thesis
      by (intro decodes_array [where wrap = ByteArrayVal and vs = vs and ty = TAG_BYTE_ARRAY])
         (simp_all add: makeTag_leaf)
  next
    case (IntArrayVal vs)
    with Tag.prems show ?thesis
      by (intro decodes_array [where wrap = IntArrayVal and vs = vs and ty = TAG_INT_ARRAY])
         (simp_all add: makeTag_leaf)
  next
    case (LongArrayVal vs)
    with Tag.prems show ?thesis
      by (intro decodes_array [where wrap = LongArrayVal and vs = vs and ty = TAG_LONG_ARRAY])
         (simp_all add: makeTag_leaf)
  next
    case (ListVal et ts)
    have "\<forall>t \<in> set ts. decodes le al t \<and> getTagType t = et \<and> getName t = None"
      using Tag.prems Tag.IH ListVal child_in_payload(1) [of _ ts et] by auto
    with Tag.prems ListVal show ?thesis
      by (simp add: decodes_list)
  next
    case (CompoundVal m)
    have "\<forall>kt \<in> set m. decodes le al (snd kt) \<and> length (fst kt) < 65536
                          \<and> getName (snd kt) = Some (fst kt) \<and> getTagType (snd kt) \<noteq> TAG_END"
      using Tag.prems Tag.IH CompoundVal child_in_payload(2) [of _ m] encodable_not_END [of al]
      by auto
    with Tag.prems CompoundVal show ?thesis
      by (simp add: decodes_compound)
  qed
qed

lemma map_of_um_insert_eq:
  "map_of (um_insert k v m) = map_of (m @ [(k, v)])"
proof (cases "k \<in> fst ` set m")
  case True
  then obtain v' where "map_of m k = Some v'"
    by (metis domD dom_map_of_conv_image_fst)
  then have "map_of (m @ [(k, v)]) = map_of m"
    by (auto simp: map_add_def fun_eq_iff split: option.splits)
  with True show ?thesis by (simp add: um_insert_def)
next
  case False
  then show ?thesis by (simp add: um_insert_def)
qed

lemma map_of_append_cong:
  "map_of m = map_of m' \<Longrightarrow> map_of (m @ kvs) = map_of (m' @ kvs)"
  by simp

lemma map_of_insert_all: "map_of (insert_all m kvs) = map_of (m @ kvs)"
proof (induction kvs arbitrary: m)
  case Nil
  show ?case by (simp add: insert_all_Nil)
next
  case (Cons kv kvs)
  have "map_of (insert_all m (kv # kvs)) = map_of (um_insert (fst kv) (snd kv) m @ kvs)"
    by (simp add: insert_all_Cons Cons.IH)
  also have "\<dots> = map_of ((m @ [(fst kv, snd kv)]) @ kvs)"
    by (rule map_of_append_cong) (rule map_of_um_insert_eq)
  finally show ?case by simp
qed

lemma distinct_um_insert:
  "distinct (map fst m) \<Longrightarrow> distinct (map fst (um_insert k v m))"
  by (auto simp: um_insert_def)

lemma distinct_insert_all:
  "distinct (map fst m) \<Longrightarrow> distinct (map fst (insert_all m kvs))"
  by (induction kvs arbitrary: m) (simp_all add: insert_all_Nil insert_all_Cons distinct_um_insert)

lemma map_of_first:
  "k \<notin> fst ` set pre \<Longrightarrow> map_of (pre @ (k, v) # post) k = Some v"
  by (induction pre) auto

lemma TagCompound_decode_children:
  assumes "\<forall>kt \<in> set cs. encodable al (snd kt) \<and> length (fst kt) < 65536
                          \<and> getName (snd kt) = Some (fst kt)"
    and "sum_list (map (\<lambda>kt. Suc (fuel_needed (snd kt))) cs) \<le> fuel"
    and "good buf"
    and "unread buf = concat (map encode_keyed cs) @ TAG_END # rest"
  shows "\<exists>buf'. TagCompound_decode le al fuel val buf =
                  Ok (insert_all val (map (\<lambda>kt. (decoded_text (fst kt), decoded (snd kt))) cs)) buf'
               \<and> good buf' \<and> unread buf' = rest"
proof -
  have "\<forall>kt \<in> set cs. decodes le al (snd kt) \<and> length (fst kt) < 65536
                          \<and> getName (snd kt) = Some (fst kt) \<and> getTagType (snd kt) \<noteq> TAG_END"
    using assms(1) encodable_decodes [of al _ le] encodable_not_END [of al] by auto
  then show ?thesis
    using assms(2-4) by (rule TagCompound_decode_encode)
qed

lemma readDocument_encode:
  assumes e: "encodable al d" and ty: "getTagType d = TAG_COMPOUND" and nm: "getName d = Some name"
    and len: "length name < 65536" and f: "fuel_needed d \<le> fuel"
    and g: "good buf" and u: "unread buf = encode_keyed (name, d) @ rest"
  shows "\<exists>buf'. readDocument le al fuel buf = Ok (decoded d) buf' \<and> good buf' \<and> unread buf' = rest"
proof -
  have u0: "unread buf = TAG_COMPOUND # (encode_text name @ (encode_payload d @ rest))"
    using u ty by (simp add: encode_keyed_pair)
  obtain buf1 where r1: "readStream_TagType le buf = (TAG_COMPOUND, buf1)" and g1: "good buf1"
    and u1: "unread buf1 = encode_text name @ (encode_payload d @ rest)"
    using read_TagType [OF g u0, of le] by auto
  obtain buf2 where r2: "readStream_string le buf1 = (decoded_text name, buf2)" and g2: "good buf2"
    and u2: "unread buf2 = encode_payload d @ rest"
    using read_text [OF len g1 u1, of le] by auto
  obtain buf' where
    m: "makeTag le al fuel (getTagType d) (Some (decoded_text name)) buf2 =
          Ok (Tag (getTagType d) (Some (decoded_text name)) (getValue (decoded d))) buf'"
    and g': "good buf'" and u': "unread buf' = rest"
    using decodesD [OF encodable_decodes [OF e] f g2 u2, of le "Some (decoded_text name)"] by auto
  have "decoded d = Tag (getTagType d) (Some (decoded_text name)) (getValue (decoded d))"
    using decoded_sel [of d] nm by simp
  with m r1 r2 ty have "readDocument le al fuel buf = Ok (decoded d) buf'"
    by (simp add: readDocument_def)
  with g' u' show ?thesis by blast
qed









section \<open>Further facts used by the claims\<close>

lemma unknown_not_known:
  "12 < (b :: TagType) \<Longrightarrow> b \<noteq> TAG_END \<and> b \<noteq> TAG_COMPOUND"
  by (auto simp: TagType_defs)

lemma TagList_loop_first_throws:
  "0 < n \<Longrightarrow> makeTag le al fuel et None buf = Throw e buf' \<Longrightarrow>
     TagList_loop le al (Suc fuel) et n buf = Throw e buf'"
  by (cases n) simp_all

lemmas decode_eval2 = decode_eval unbounded_def

lemma TagArray_Throw:
  fixes wrap :: "('a::len) word list \<Rightarrow> Tag payload"
  assumes "(TagArray_decode le al tt buf :: 'a word list result) = Throw e buf'"
  shows "TagArray le al tt wrap nm buf = Throw e buf'"
  using assms by (simp add: TagArray_def)

lemma neg_len_large:
  assumes "sint (L :: 32 word) \<le> 0" and "L \<noteq> 0"
  shows "2147483648 \<le> unat L"
proof (rule ccontr)
  assume "\<not> 2147483648 \<le> unat L"
  then have lt: "unat L < 2 ^ 31" by simp
  have "\<not> bit (unat L) 31"
    using lt by (simp only: bit_iff_odd div_less) simp
  then have "\<not> bit L 31" by (simp add: bit_unsigned_iff)
  then have "\<not> sint L < 0"
    using bit_last_iff [of L] by simp
  with assms(1) have "sint L = 0" by simp
  then have "L = 0" by (simp only: signed_eq_0_iff)
  with assms(2) show False by simp
qed


section \<open>Claims\<close>




text \<open>
  Claim C2 says that the text read returns exactly the \<open>L\<close> bytes that follow the
  length. Evaluation at the wire bytes \<open>00 01 78\<close> (length 1, then "x"): the three
  bytes are consumed, and the text returned has two bytes, "x" and a zero byte.
\<close>

theorem readStream_string_extra_byte:
  "readStream_string True (istream_of [0, 1, 0x78]) = ([0x78, 0], istream_of [])
   \<and> length (fst (readStream_string True (istream_of [0, 1, 0x78]))) = 2"
  using readStream_string_of [of 0 1 1 "[0x78]" True] by (simp add: from_be_eval)

text \<open>
  Claim C3 says that an array with a negative declared length is empty and that no
  element byte is read. Evaluation at the wire bytes \<open>FF FF FF FF 07\<close> (length -1 as a
  signed 32 bit number, then one more byte), decoded as a byte array. On a host that
  allocates the vector the array has 4294967295 elements, the first is the byte 7 taken
  from the stream, and the stream is read to its end. On a host that refuses more than
  2147483647 elements the decode throws \<^verbatim>\<open>std::bad_alloc\<close>. On neither is the array
  empty.
\<close>

theorem TagArray_decode_negative_length:
  "(TagArray_decode True unbounded TAG_BYTE_ARRAY (istream_of [0xFF, 0xFF, 0xFF, 0xFF, 7])
      :: (8 word list) result) =
     Ok (fst (TagArray_elems True 4294967295 (istream_of [7]) :: 8 word list \<times> istream))
        (snd (TagArray_elems True 4294967295 (istream_of [7]) :: 8 word list \<times> istream))
   \<and> length (fst (TagArray_elems True 4294967295 (istream_of [7]) :: 8 word list \<times> istream))
       = 4294967295
   \<and> hd (fst (TagArray_elems True 4294967295 (istream_of [7]) :: 8 word list \<times> istream)) = 7
   \<and> unread (snd (TagArray_elems True 4294967295 (istream_of [7]) :: 8 word list \<times> istream)) = []
   \<and> (TagArray_decode True (bounded 2147483647) TAG_BYTE_ARRAY
        (istream_of [0xFF, 0xFF, 0xFF, 0xFF, 7]) :: (8 word list) result) =
     Throw bad_alloc (istream_of [7])"
proof -
  let ?e = "TagArray_elems True 4294967295 (istream_of [7]) :: 8 word list \<times> istream"
  have l: "(readStream True (istream_of [0xFF, 0xFF, 0xFF, 0xFF, 7]) :: 32 word \<times> istream) =
             (0xFFFFFFFF, istream_of [7])"
    by (simp add: readStream_of from_be_eval)
  have u: "unat (0xFFFFFFFF :: 32 word) = 4294967295" by simp
  have n: "(0xFFFFFFFF :: 32 word) \<noteq> 0" by simp
  have r: "(TagArray_decode True unbounded TAG_BYTE_ARRAY (istream_of [0xFF, 0xFF, 0xFF, 0xFF, 7])
             :: (8 word list) result) = Ok (fst ?e) (snd ?e)"
    using TagArray_decode_nonzero [where al = unbounded and tt = TAG_BYTE_ARRAY and 'a = 8, OF l n]
    by (simp add: unbounded_def)
  have t: "(TagArray_decode True (bounded 2147483647) TAG_BYTE_ARRAY
             (istream_of [0xFF, 0xFF, 0xFF, 0xFF, 7]) :: (8 word list) result) =
           Throw bad_alloc (istream_of [7])"
    using TagArray_decode_resize_throws [where al = "bounded 2147483647" and tt = TAG_BYTE_ARRAY
        and 'a = 8 and e = bad_alloc, OF l n]
    by (simp add: bounded_def)
  have e: "(readStream True (istream_of [7]) :: 8 word \<times> istream) = (7, istream_of [])"
    by (simp add: readStream_of from_be_eval)
  have p: "?e =
             (7 # fst (TagArray_elems True 4294967294 (istream_of []) :: 8 word list \<times> istream),
              snd (TagArray_elems True 4294967294 (istream_of []) :: 8 word list \<times> istream))"
    by (subst TagArray_elems_pos) (simp_all add: e split_def Let_def)
  have "length (unread (snd (TagArray_elems True 4294967294 (istream_of []) :: 8 word list \<times> istream)))
          \<le> length (unread (istream_of []))"
    by (rule unread_TagArray_elems_le)
  then have z: "unread (snd (TagArray_elems True 4294967294 (istream_of []) :: 8 word list \<times> istream)) = []"
    by (simp add: istream_of_def)
  have "length (fst ?e) = 4294967295"
    by (rule length_TagArray_elems)
  moreover have "hd (fst ?e) = 7" unfolding p by simp
  moreover have "unread (snd ?e) = []" unfolding p using z by simp
  ultimately show ?thesis using r t by simp
qed

text \<open>
  Claim C4 says that the tag type read fails on a byte outside 0-12. Counterexample: on
  the byte 13 the read returns 13; a compound that meets this byte goes on to read the
  child's name, and the failure is the dispatcher's, raised after those bytes were
  consumed.
\<close>

theorem readStream_TagType_13_counterexample:
  "readStream_TagType True (istream_of [13, 0, 0]) = (13, istream_of [0, 0])
   \<and> TagCompound_decode True unbounded 1 [] (istream_of [13, 0, 0]) =
       Throw (runtime_error ''makeTag: TagType 13 not found'') (istream_of [])"
proof -
  have a: "readStream_TagType True (istream_of [13, 0, 0]) = (13, istream_of [0, 0])"
    by (rule readStream_TagType_of)
  have b: "readStream_string True (istream_of [0, 0]) = ([0], istream_of [])"
    using readStream_string_of [of 0 0 0 "[]" True] by (simp add: from_be_eval)
  have "TagCompound_decode True unbounded (Suc 0) [] (istream_of [13, 0, 0]) =
          Throw (runtime_error ''makeTag: TagType 13 not found'') (istream_of [])"
    by (subst TagCompound_decode_child [OF a _ b])
       (simp_all add: TAG_END_def makeTag_unknown to_string_13)
  with a show ?thesis by simp
qed

text \<open>
  Claim C4, as amended. Reading a tag type takes one byte from a good stream and returns
  it as it is, for every byte value: the read has no failure of its own. A byte \<open>b\<close>
  above 12 is refused by the caller of the read. At the root, \<^verbatim>\<open>readDocument\<close> throws
  "readDocument: document should be a named compound" right after the read. In a
  compound, the loop first reads the child's name, and the dispatcher then throws
  "makeTag: TagType b not found". In a list, where the byte is the element type, the
  signed length \<open>L\<close> is read next: if \<open>L \<le> 0\<close> the list throws its own error; if
  \<open>L > 0\<close> and the vector cannot be allocated, the exception of the allocation; if
  \<open>L > 0\<close> and the vector is allocated, the dispatcher throws "makeTag: TagType b not
  found" at the first element, with the stream just after the length.
\<close>

theorem readStream_TagType_unchecked:
  assumes "good buf" and "unread buf = b # rest"
    and "buf1 = buf\<lparr>unread := rest, indet := (\<lambda>i. indet buf (i + 1))\<rparr>"
  shows "readStream_TagType le buf = (b, buf1)
   \<and> (12 < b \<longrightarrow>
        readDocument le al fuel buf =
          Throw (runtime_error ''readDocument: document should be a named compound'') buf1
      \<and> TagCompound_decode le al (Suc fuel) val buf =
          Throw (runtime_error (''makeTag: TagType '' @ to_string (unat b) @ '' not found''))
            (snd (readStream_string le buf1))
      \<and> (\<forall>L buf2. readStream le buf1 = (L :: 32 word, buf2) \<longrightarrow>
            (sint L \<le> 0 \<longrightarrow>
               TagList_decode le al fuel buf =
                 Throw (runtime_error ''TagList::decode: not implement for variant length list'') buf2)
          \<and> (0 < sint L \<longrightarrow> (\<forall>e. al TAG_LIST (unat L) = Some e \<longrightarrow>
               TagList_decode le al fuel buf = Throw e buf2))
          \<and> (0 < sint L \<and> al TAG_LIST (unat L) = None \<longrightarrow>
               TagList_decode le al (Suc fuel) buf =
                 Throw (runtime_error (''makeTag: TagType '' @ to_string (unat b) @ '' not found''))
                   buf2)))"
proof -
  have r: "readStream_TagType le buf = (b, buf1)"
    using assms by (simp add: readStream_TagType_good)
  have doc: "readDocument le al fuel buf =
          Throw (runtime_error ''readDocument: document should be a named compound'') buf1"
    if "12 < b"
    using r unknown_not_known [OF that] by (simp add: readDocument_def)
  have comp: "TagCompound_decode le al (Suc fuel) val buf =
          Throw (runtime_error (''makeTag: TagType '' @ to_string (unat b) @ '' not found''))
            (snd (readStream_string le buf1))"
    if "12 < b"
  proof -
    have n: "readStream_string le buf1 = (fst (readStream_string le buf1), snd (readStream_string le buf1))"
      by simp
    have ne: "b \<noteq> TAG_END" using unknown_not_known [OF that] by simp
    show ?thesis
      using TagCompound_decode_child [where al = al and fuel = fuel and val = val, OF r ne n]
      by (simp add: makeTag_unknown [OF that])
  qed
  have lst: "(sint L \<le> 0 \<longrightarrow>
               TagList_decode le al fuel buf =
                 Throw (runtime_error ''TagList::decode: not implement for variant length list'') buf2)
          \<and> (0 < sint L \<longrightarrow> (\<forall>e. al TAG_LIST (unat L) = Some e \<longrightarrow>
               TagList_decode le al fuel buf = Throw e buf2))
          \<and> (0 < sint L \<and> al TAG_LIST (unat L) = None \<longrightarrow>
               TagList_decode le al (Suc fuel) buf =
                 Throw (runtime_error (''makeTag: TagType '' @ to_string (unat b) @ '' not found''))
                   buf2)"
    if u: "12 < b" and l: "readStream le buf1 = (L :: 32 word, buf2)" for L buf2
  proof (intro conjI impI allI)
    assume "sint L \<le> 0"
    then show "TagList_decode le al fuel buf =
                 Throw (runtime_error ''TagList::decode: not implement for variant length list'') buf2"
      using TagList_decode_nonpos [OF r l] by simp
  next
    fix e assume "0 < sint L" and "al TAG_LIST (unat L) = Some e"
    then show "TagList_decode le al fuel buf = Throw e buf2"
      using TagList_decode_resize_throws [where al = al, OF r l] by simp
  next
    assume a: "0 < sint L \<and> al TAG_LIST (unat L) = None"
    then have "L \<noteq> 0" by auto
    then have n: "0 < unat L" by (simp add: unat_gt_0)
    have "TagList_loop le al (Suc fuel) b (unat L) buf2 =
            Throw (runtime_error (''makeTag: TagType '' @ to_string (unat b) @ '' not found'')) buf2"
      using n by (rule TagList_loop_first_throws) (rule makeTag_unknown [OF u])
    then show "TagList_decode le al (Suc fuel) buf =
                 Throw (runtime_error (''makeTag: TagType '' @ to_string (unat b) @ '' not found''))
                   buf2"
      using TagList_decode_pos [where al = al and fuel = "Suc fuel", OF r l] a by simp
  qed
  show ?thesis
    using r doc comp lst by blast
qed

theorem readStream_TagType_unchecked_witness:
  "readStream_TagType True (istream_of [200, 0, 0, 0, 1]) = (200, istream_of [0, 0, 0, 1])
   \<and> readDocument True unbounded 0 (istream_of [200, 0, 0, 0, 1]) =
       Throw (runtime_error ''readDocument: document should be a named compound'')
         (istream_of [0, 0, 0, 1])
   \<and> TagCompound_decode True unbounded 1 [] (istream_of [200, 0, 0, 0, 1]) =
       Throw (runtime_error ''makeTag: TagType 200 not found'') (istream_of [0, 1])
   \<and> TagList_decode True unbounded 1 (istream_of [200, 0, 0, 0, 1]) =
       Throw (runtime_error ''makeTag: TagType 200 not found'') (istream_of [])
   \<and> TagList_decode True (bounded 0) 0 (istream_of [200, 0, 0, 0, 1]) =
       Throw bad_alloc (istream_of [])
   \<and> TagList_decode True unbounded 1 (istream_of [200, 0, 0, 0, 0]) =
       Throw (runtime_error ''TagList::decode: not implement for variant length list'')
         (istream_of [])"
proof -
  have ts: "to_string (unat (200 :: byte)) = ''200''"
    by (simp add: to_string.simps digit_char_def)
  have g: "good (istream_of bs)" for bs by (simp add: istream_of_def)
  have u1: "unread (istream_of [200, 0, 0, 0, 1]) = 200 # [0, 0, 0, 1]" by (simp add: istream_of_def)
  have u0: "unread (istream_of [200, 0, 0, 0, 0]) = 200 # [0, 0, 0, 0]" by (simp add: istream_of_def)
  have b1: "istream_of [0, 0, 0, 1] = (istream_of [200, 0, 0, 0, 1])
              \<lparr>unread := [0, 0, 0, 1], indet := (\<lambda>i. indet (istream_of [200, 0, 0, 0, 1]) (i + 1))\<rparr>"
    by (simp add: istream_of_def)
  have b0: "istream_of [0, 0, 0, 0] = (istream_of [200, 0, 0, 0, 0])
              \<lparr>unread := [0, 0, 0, 0], indet := (\<lambda>i. indet (istream_of [200, 0, 0, 0, 0]) (i + 1))\<rparr>"
    by (simp add: istream_of_def)
  have k: "(12 :: byte) < 200" by simp
  have s: "readStream_string True (istream_of [0, 0, 0, 1]) = ([0], istream_of [0, 1])"
    using readStream_string_of [of 0 0 0 "[0, 1]" True] by (simp add: from_be_eval)
  have l1: "(readStream True (istream_of [0, 0, 0, 1]) :: 32 word \<times> istream) = (1, istream_of [])"
    by (simp add: readStream_of from_be_eval)
  have l0: "(readStream True (istream_of [0, 0, 0, 0]) :: 32 word \<times> istream) = (0, istream_of [])"
    by (simp add: readStream_of from_be_eval)
  note A = readStream_TagType_unchecked [OF g u1 b1, where le = True and al = unbounded
      and fuel = 0 and val = "[]"]
  note B = readStream_TagType_unchecked [OF g u1 b1, where le = True and al = "bounded 0"
      and fuel = 0 and val = "[]"]
  note C = readStream_TagType_unchecked [OF g u0 b0, where le = True and al = unbounded
      and fuel = 1 and val = "[]"]
  have "readStream_TagType True (istream_of [200, 0, 0, 0, 1]) = (200, istream_of [0, 0, 0, 1])"
    using A by simp
  moreover have "readDocument True unbounded 0 (istream_of [200, 0, 0, 0, 1]) =
       Throw (runtime_error ''readDocument: document should be a named compound'')
         (istream_of [0, 0, 0, 1])"
    using A k by simp
  moreover have "TagCompound_decode True unbounded 1 [] (istream_of [200, 0, 0, 0, 1]) =
       Throw (runtime_error ''makeTag: TagType 200 not found'') (istream_of [0, 1])"
    using A k s ts by simp
  moreover have "TagList_decode True unbounded 1 (istream_of [200, 0, 0, 0, 1]) =
       Throw (runtime_error ''makeTag: TagType 200 not found'') (istream_of [])"
    using A [THEN conjunct2, THEN mp, OF k, THEN conjunct2, THEN conjunct2, rule_format, OF l1]
      ts by (simp add: unbounded_def)
  moreover have "TagList_decode True (bounded 0) 0 (istream_of [200, 0, 0, 0, 1]) =
       Throw bad_alloc (istream_of [])"
    using B [THEN conjunct2, THEN mp, OF k, THEN conjunct2, THEN conjunct2, rule_format, OF l1]
    by (simp add: bounded_def)
  moreover have "TagList_decode True unbounded 1 (istream_of [200, 0, 0, 0, 0]) =
       Throw (runtime_error ''TagList::decode: not implement for variant length list'')
         (istream_of [])"
    using C [THEN conjunct2, THEN mp, OF k, THEN conjunct2, THEN conjunct2, rule_format, OF l0]
    by simp
  ultimately show ?thesis by simp
qed

text \<open>
  Claim C5 says that a list with a declared length \<open>L \<le> 0\<close> fails, where an array with
  such a length is empty, for every input. For a stream on which the element type and
  then the length \<open>L \<le> 0\<close> are read: the list decode, and the dispatcher asked for a
  list, throw "TagList::decode: not implement for variant length list" with the stream
  just after the length. An array decode that reads the same length is empty only for
  \<open>L = 0\<close>. For a negative \<open>L\<close> the array decode takes the length as the unsigned
  number \<open>L + 2^32\<close>, at least 2147483648: it throws the exception of the allocation if
  the vector cannot be allocated, and returns an array of that many elements otherwise.
\<close>

theorem list_array_nonpositive_length:
  assumes t: "readStream_TagType le buf = (et, buf1)"
    and l: "readStream le buf1 = (L :: 32 word, buf2)"
    and n: "sint L \<le> 0"
  shows "TagList_decode le al fuel buf =
           Throw (runtime_error ''TagList::decode: not implement for variant length list'') buf2
     \<and> makeTag le al fuel TAG_LIST nm buf =
           Throw (runtime_error ''TagList::decode: not implement for variant length list'') buf2
     \<and> (L = 0 \<longrightarrow> (TagArray_decode le al tt buf1 :: ('a::len) word list result) = Ok [] buf2)
     \<and> (L \<noteq> 0 \<longrightarrow>
          2147483648 \<le> unat L
          \<and> (\<forall>e. al tt (unat L) = Some e \<longrightarrow>
                (TagArray_decode le al tt buf1 :: 'a word list result) = Throw e buf2)
          \<and> (al tt (unat L) = None \<longrightarrow>
                (\<exists>val buf3. (TagArray_decode le al tt buf1 :: 'a word list result) = Ok val buf3
                    \<and> length val = unat L)))"
proof (intro conjI impI allI)
  show a: "TagList_decode le al fuel buf =
           Throw (runtime_error ''TagList::decode: not implement for variant length list'') buf2"
    using t l n by (rule TagList_decode_nonpos)
  show "makeTag le al fuel TAG_LIST nm buf =
           Throw (runtime_error ''TagList::decode: not implement for variant length list'') buf2"
    using a by (simp add: makeTag_LIST)
next
  assume "L = 0"
  with l show "(TagArray_decode le al tt buf1 :: 'a word list result) = Ok [] buf2"
    by (simp add: TagArray_decode_zero)
next
  assume "L \<noteq> 0"
  with n show "2147483648 \<le> unat L" by (rule neg_len_large)
next
  fix e assume "L \<noteq> 0" and "al tt (unat L) = Some e"
  with l show "(TagArray_decode le al tt buf1 :: 'a word list result) = Throw e buf2"
    by (rule TagArray_decode_resize_throws)
next
  let ?E = "TagArray_elems le (unat L) buf2 :: 'a word list \<times> istream"
  assume "L \<noteq> 0" and "al tt (unat L) = None"
  with l have "(TagArray_decode le al tt buf1 :: 'a word list result) = Ok (fst ?E) (snd ?E)"
    by (rule TagArray_decode_nonzero)
  moreover have "length (fst ?E) = unat L" by (rule length_TagArray_elems)
  ultimately show "\<exists>val buf3. (TagArray_decode le al tt buf1 :: 'a word list result) = Ok val buf3
                    \<and> length val = unat L"
    by blast
qed

theorem list_array_nonpositive_length_witness:
  "makeTag True unbounded 1 TAG_LIST None (istream_of [1, 0xFF, 0xFF, 0xFF, 0xFF]) =
     Throw (runtime_error ''TagList::decode: not implement for variant length list'') (istream_of [])
   \<and> (\<exists>val buf3. (TagArray_decode True unbounded TAG_BYTE_ARRAY (istream_of [0xFF, 0xFF, 0xFF, 0xFF])
                      :: 8 word list result) = Ok val buf3
         \<and> length val = 4294967295)
   \<and> (TagArray_decode True (bounded 2147483647) TAG_BYTE_ARRAY (istream_of [0xFF, 0xFF, 0xFF, 0xFF])
        :: 8 word list result) = Throw bad_alloc (istream_of [])
   \<and> makeTag True unbounded 1 TAG_LIST None (istream_of [1, 0, 0, 0, 0]) =
     Throw (runtime_error ''TagList::decode: not implement for variant length list'') (istream_of [])
   \<and> (TagArray_decode True unbounded TAG_BYTE_ARRAY (istream_of [0, 0, 0, 0])
        :: 8 word list result) = Ok [] (istream_of [])"
proof -
  have t: "readStream_TagType True (istream_of [1, 0xFF, 0xFF, 0xFF, 0xFF]) =
             (1, istream_of [0xFF, 0xFF, 0xFF, 0xFF])"
    by (rule readStream_TagType_of)
  have l: "(readStream True (istream_of [0xFF, 0xFF, 0xFF, 0xFF]) :: 32 word \<times> istream) =
             (0xFFFFFFFF, istream_of [])"
    by (simp add: readStream_of from_be_eval)
  have s: "sint (0xFFFFFFFF :: 32 word) \<le> 0" by simp
  have n: "(0xFFFFFFFF :: 32 word) \<noteq> 0" by simp
  have u: "unat (0xFFFFFFFF :: 32 word) = 4294967295" by simp
  have t0: "readStream_TagType True (istream_of [1, 0, 0, 0, 0]) = (1, istream_of [0, 0, 0, 0])"
    by (rule readStream_TagType_of)
  have l0: "(readStream True (istream_of [0, 0, 0, 0]) :: 32 word \<times> istream) = (0, istream_of [])"
    by (simp add: readStream_of from_be_eval)
  have s0: "sint (0 :: 32 word) \<le> 0" by simp
  note A = list_array_nonpositive_length [OF t l s, where al = unbounded and fuel = 1
      and nm = None and tt = TAG_BYTE_ARRAY and 'a = 8]
  note B = list_array_nonpositive_length [OF t l s, where al = "bounded 2147483647" and fuel = 1
      and nm = None and tt = TAG_BYTE_ARRAY and 'a = 8]
  note C = list_array_nonpositive_length [OF t0 l0 s0, where al = unbounded and fuel = 1
      and nm = None and tt = TAG_BYTE_ARRAY and 'a = 8]
  have one: "makeTag True unbounded 1 TAG_LIST None (istream_of [1, 0xFF, 0xFF, 0xFF, 0xFF]) =
     Throw (runtime_error ''TagList::decode: not implement for variant length list'') (istream_of [])"
    using A by simp
  have ub: "unbounded TAG_BYTE_ARRAY (unat (0xFFFFFFFF :: 32 word)) = None"
    by (simp add: unbounded_def)
  have two: "\<exists>val buf3. (TagArray_decode True unbounded TAG_BYTE_ARRAY (istream_of [0xFF, 0xFF, 0xFF, 0xFF])
                      :: 8 word list result) = Ok val buf3
         \<and> length val = unat (0xFFFFFFFF :: 32 word)"
    using A [THEN conjunct2, THEN conjunct2, THEN conjunct2, THEN mp, OF n,
        THEN conjunct2, THEN conjunct2, THEN mp, OF ub] .
  have bb: "bounded 2147483647 TAG_BYTE_ARRAY (unat (0xFFFFFFFF :: 32 word)) = Some bad_alloc"
    by (simp add: bounded_def)
  have three: "(TagArray_decode True (bounded 2147483647) TAG_BYTE_ARRAY
        (istream_of [0xFF, 0xFF, 0xFF, 0xFF]) :: 8 word list result) = Throw bad_alloc (istream_of [])"
    using B [THEN conjunct2, THEN conjunct2, THEN conjunct2, THEN mp, OF n,
        THEN conjunct2, THEN conjunct1, rule_format, OF bb] .
  have four: "makeTag True unbounded 1 TAG_LIST None (istream_of [1, 0, 0, 0, 0]) =
     Throw (runtime_error ''TagList::decode: not implement for variant length list'') (istream_of [])"
    using C by simp
  have five: "(TagArray_decode True unbounded TAG_BYTE_ARRAY (istream_of [0, 0, 0, 0])
        :: 8 word list result) = Ok [] (istream_of [])"
    using C by simp
  from one two three four five show ?thesis
    unfolding u by simp
qed

text \<open>
  Claim C6 says that on a stream whose first byte is the COMPOUND id \<^verbatim>\<open>readDocument\<close>
  returns the decoded root. Counterexample: a root compound, with the empty name, whose
  only child is a list of declared length 0. The first byte is the COMPOUND id and
  \<^verbatim>\<open>readDocument\<close> throws the error of the list.
\<close>

theorem readDocument_body_counterexample:
  "readDocument True unbounded 1 (istream_of [10, 0, 0, 9, 0, 0, 1, 0, 0, 0, 0]) =
     Throw (runtime_error ''TagList::decode: not implement for variant length list'') (istream_of [])"
proof -
  have "readDocument True unbounded (Suc 0) (istream_of [10, 0, 0, 9, 0, 0, 1, 0, 0, 0, 0]) =
     Throw (runtime_error ''TagList::decode: not implement for variant length list'') (istream_of [])"
    by (simp add: decode_eval2)
  then show ?thesis by simp
qed

text \<open>
  Claim C6, as amended. \<^verbatim>\<open>readDocument\<close> reads one tag type. If it is not
  \<open>TAG_COMPOUND\<close> it throws "readDocument: document should be a named compound" with
  the stream just after that read, which took at most one byte; nothing else is decoded.
  If it is \<open>TAG_COMPOUND\<close> it reads the root name and decodes the compound body, and
  the outcome is that of the body. When the good stream holds the encoding of a named
  compound \<open>d\<close> that is encodable (its name shorter than 65536 bytes), followed by any
  bytes \<open>rest\<close>, \<^verbatim>\<open>readDocument\<close> returns the tree \<open>decoded d\<close>, which is \<open>d\<close> with a
  zero byte added to every text, and leaves the stream good at \<open>rest\<close>. When the
  decode of the body throws, \<^verbatim>\<open>readDocument\<close> throws the same exception at the same
  stream position.
\<close>

theorem readDocument_root:
  assumes "readStream_TagType le buf = (tagType, buf1)"
  shows "(tagType \<noteq> TAG_COMPOUND \<longrightarrow>
            readDocument le al fuel buf =
              Throw (runtime_error ''readDocument: document should be a named compound'') buf1
            \<and> length (unread buf) \<le> length (unread buf1) + 1)
       \<and> (\<forall>d name rest.
            good buf \<and> unread buf = encode_keyed (name, d) @ rest
            \<and> getTagType d = TAG_COMPOUND \<and> getName d = Some name \<and> length name < 65536
            \<and> encodable al d \<and> fuel_needed d \<le> fuel \<longrightarrow>
            (\<exists>buf'. readDocument le al fuel buf = Ok (decoded d) buf'
                   \<and> good buf' \<and> unread buf' = rest))
       \<and> (tagType = TAG_COMPOUND \<longrightarrow>
            (\<forall>name buf2 e buf3.
               readStream_string le buf1 = (name, buf2)
               \<and> TagCompound_decode le al fuel [] buf2 = Throw e buf3 \<longrightarrow>
               readDocument le al fuel buf = Throw e buf3))"
proof (intro conjI impI allI)
  assume "tagType \<noteq> TAG_COMPOUND"
  then show "readDocument le al fuel buf =
              Throw (runtime_error ''readDocument: document should be a named compound'') buf1"
    using assms by (simp add: readDocument_def)
next
  show "length (unread buf) \<le> length (unread buf1) + 1"
    using assms readStream_TagType_consumes [of buf le] by simp
next
  fix d name rest
  assume "good buf \<and> unread buf = encode_keyed (name, d) @ rest
            \<and> getTagType d = TAG_COMPOUND \<and> getName d = Some name \<and> length name < 65536
            \<and> encodable al d \<and> fuel_needed d \<le> fuel"
  then show "\<exists>buf'. readDocument le al fuel buf = Ok (decoded d) buf'
                   \<and> good buf' \<and> unread buf' = rest"
    by (intro readDocument_encode) simp_all
next
  fix name buf2 e buf3
  assume "tagType = TAG_COMPOUND"
    and "readStream_string le buf1 = (name, buf2)
               \<and> TagCompound_decode le al fuel [] buf2 = Throw e buf3"
  then show "readDocument le al fuel buf = Throw e buf3"
    using assms by (simp add: readDocument_def makeTag_COMPOUND)
qed

theorem readDocument_root_witness:
  "readDocument True unbounded 0 (istream_of [1, 0, 0, 7]) =
     Throw (runtime_error ''readDocument: document should be a named compound'') (istream_of [0, 0, 7])
   \<and> (\<exists>buf'. readDocument True unbounded 3
        (istream_of [10, 0, 0,  9, 0, 1, 0x6C,  10, 0, 0, 0, 1,  1, 0, 1, 0x62, 7,  0,  0,  0xEE]) =
        Ok (Tag TAG_COMPOUND (Some [0])
             (CompoundVal
               [([0x6C, 0],
                 Tag TAG_LIST (Some [0x6C, 0])
                   (ListVal TAG_COMPOUND
                     [Tag TAG_COMPOUND None
                        (CompoundVal [([0x62, 0], Tag TAG_BYTE (Some [0x62, 0]) (ByteVal 7))])]))]))
           buf'
        \<and> good buf' \<and> unread buf' = [0xEE])
   \<and> readDocument True unbounded 2 (istream_of [10, 0, 0, 8, 0, 0, 0, 0, 200, 0, 0]) =
       Throw (runtime_error ''makeTag: TagType 200 not found'') (istream_of [])"
proof -
  let ?d = "Tag TAG_COMPOUND (Some [])
             (CompoundVal
               [([0x6C],
                 Tag TAG_LIST (Some [0x6C])
                   (ListVal TAG_COMPOUND
                     [Tag TAG_COMPOUND None
                        (CompoundVal [([0x62], Tag TAG_BYTE (Some [0x62]) (ByteVal 7))])]))])"
  let ?bytes = "[10, 0, 0,  9, 0, 1, 0x6C,  10, 0, 0, 0, 1,  1, 0, 1, 0x62, 7,  0,  0,  0xEE] :: byte list"
  have a: "readStream_TagType True (istream_of [1, 0, 0, 7]) = (1, istream_of [0, 0, 7])"
    by (rule readStream_TagType_of)
  have na: "(1 :: byte) \<noteq> TAG_COMPOUND" by (simp add: TAG_COMPOUND_def)
  have b: "readStream_TagType True (istream_of ?bytes) = (10, istream_of (tl ?bytes))"
    by (simp add: readStream_TagType_of)
  have enc: "encode_keyed ([], ?d) @ [0xEE] = ?bytes"
    by code_simp
  have wf: "encodable unbounded ?d"
    by (simp add: unbounded_def)
  have fu: "fuel_needed ?d \<le> 3"
    by simp
  have dec: "decoded ?d =
      Tag TAG_COMPOUND (Some [0])
             (CompoundVal
               [([0x6C, 0],
                 Tag TAG_LIST (Some [0x6C, 0])
                   (ListVal TAG_COMPOUND
                     [Tag TAG_COMPOUND None
                        (CompoundVal [([0x62, 0], Tag TAG_BYTE (Some [0x62, 0]) (ByteVal 7))])]))])"
    by (simp add: decoded_text_def)
  have h: "good (istream_of ?bytes) \<and> unread (istream_of ?bytes) = encode_keyed ([], ?d) @ [0xEE]
            \<and> getTagType ?d = TAG_COMPOUND \<and> getName ?d = Some [] \<and> length ([] :: cstring) < 65536
            \<and> encodable unbounded ?d \<and> fuel_needed ?d \<le> 3"
    using wf fu by (simp add: istream_of_def enc)
  have two: "\<exists>buf'. readDocument True unbounded 3 (istream_of ?bytes) = Ok (decoded ?d) buf'
               \<and> good buf' \<and> unread buf' = [0xEE]"
    using readDocument_root [OF b, where al = unbounded and fuel = 3,
        THEN conjunct2, THEN conjunct1, rule_format, OF h] .
  have c: "readStream_TagType True (istream_of [10, 0, 0, 8, 0, 0, 0, 0, 200, 0, 0]) =
             (TAG_COMPOUND, istream_of [0, 0, 8, 0, 0, 0, 0, 200, 0, 0])"
    by (simp add: readStream_TagType_of TAG_COMPOUND_def)
  have c1: "readStream_string True (istream_of [0, 0, 8, 0, 0, 0, 0, 200, 0, 0]) =
              ([0], istream_of [8, 0, 0, 0, 0, 200, 0, 0])"
    by (simp add: decode_eval2)
  have "TagCompound_decode True unbounded (Suc (Suc 0)) [] (istream_of [8, 0, 0, 0, 0, 200, 0, 0]) =
              Throw (runtime_error ''makeTag: TagType 200 not found'') (istream_of [])"
    by (simp add: decode_eval2 makeTag_unknown to_string.simps digit_char_def)
  then have c2: "TagCompound_decode True unbounded 2 [] (istream_of [8, 0, 0, 0, 0, 200, 0, 0]) =
              Throw (runtime_error ''makeTag: TagType 200 not found'') (istream_of [])"
    by (simp add: numeral_2_eq_2)
  have three: "readDocument True unbounded 2 (istream_of [10, 0, 0, 8, 0, 0, 0, 0, 200, 0, 0]) =
       Throw (runtime_error ''makeTag: TagType 200 not found'') (istream_of [])"
    using readDocument_root [OF c, where al = unbounded and fuel = 2,
        THEN conjunct2, THEN conjunct2, rule_format, OF refl] c1 c2
    by simp
  have one: "readDocument True unbounded 0 (istream_of [1, 0, 0, 7]) =
     Throw (runtime_error ''readDocument: document should be a named compound'') (istream_of [0, 0, 7])"
    using readDocument_root [OF a, where al = unbounded and fuel = 0] na by simp
  from one two three show ?thesis
    unfolding dec by simp
qed

text \<open>
  Claim C7 says that the dispatcher returns a node for each of the twelve constructible
  tag types. Counterexample: asked for a list on the bytes \<open>01 00 00 00 00\<close> (element
  type BYTE, length 0) the dispatcher throws the error of the list.
\<close>

theorem makeTag_list_counterexample:
  "makeTag True unbounded 1 TAG_LIST None (istream_of [1, 0, 0, 0, 0]) =
     Throw (runtime_error ''TagList::decode: not implement for variant length list'') (istream_of [])"
proof -
  have t: "readStream_TagType True (istream_of [1, 0, 0, 0, 0]) = (1, istream_of [0, 0, 0, 0])"
    by (rule readStream_TagType_of)
  have l: "(readStream True (istream_of [0, 0, 0, 0]) :: 32 word \<times> istream) = (0, istream_of [])"
    by (simp add: readStream_of from_be_eval)
  have s: "sint (0 :: 32 word) \<le> 0" by simp
  show ?thesis
    using TagList_decode_nonpos [OF t l s, of unbounded 1] by (simp add: makeTag_LIST)
qed

text \<open>
  Claim C7, as amended. The dispatcher \<^verbatim>\<open>makeTag\<close>, for every request: asked for
  \<open>TAG_END\<close> it throws \<^verbatim>\<open>invalid_argument\<close>; asked for an id above 12 it throws the
  \<^verbatim>\<open>runtime_error\<close> "makeTag: TagType n not found"; nothing is read from the stream
  before either error. For the seven primitive types (the six numeric types and STRING)
  it returns a node on every stream. Every node it returns, for any of the twelve
  constructible types, has the requested type, the name it was given and a payload of
  the requested kind. On a good stream that starts with the encoding of an encodable
  tree of the requested type, with enough calls left, it returns the node of that tree
  (every text with a zero byte added) under the given name and leaves the stream good,
  just after the encoding. An exception thrown by the decode of a list, of a compound or
  of an array is thrown by the dispatcher, at the same stream position.
\<close>

theorem makeTag_dispatch:
  "makeTag le al fuel TAG_END nm buf =
     Throw (invalid_argument ''makeTag: TagType shouldn't be TAG_END'') buf
   \<and> (12 < type \<longrightarrow>
        makeTag le al fuel type nm buf =
          Throw (runtime_error (''makeTag: TagType '' @ to_string (unat type) @ '' not found'')) buf)
   \<and> (type \<in> primitive_types \<longrightarrow> (\<exists>t buf'. makeTag le al fuel type nm buf = Ok t buf'))
   \<and> (\<forall>t buf'. makeTag le al fuel type nm buf = Ok t buf' \<longrightarrow>
         getTagType t = type \<and> getName t = nm \<and> payload_kind (getValue t) = type)
   \<and> (\<forall>t rest. encodable al t \<and> getTagType t = type \<and> fuel_needed t \<le> fuel
                \<and> good buf \<and> unread buf = encode_payload t @ rest \<longrightarrow>
         (\<exists>buf'. makeTag le al fuel type nm buf = Ok (Tag type nm (getValue (decoded t))) buf'
                \<and> good buf' \<and> unread buf' = rest))
   \<and> (\<forall>e buf'. TagList_decode le al fuel buf = Throw e buf' \<longrightarrow>
         makeTag le al fuel TAG_LIST nm buf = Throw e buf')
   \<and> (\<forall>e buf'. TagCompound_decode le al fuel [] buf = Throw e buf' \<longrightarrow>
         makeTag le al fuel TAG_COMPOUND nm buf = Throw e buf')
   \<and> (\<forall>e buf'. (TagArray_decode le al TAG_BYTE_ARRAY buf :: (8 word list) result) = Throw e buf' \<longrightarrow>
         makeTag le al fuel TAG_BYTE_ARRAY nm buf = Throw e buf')
   \<and> (\<forall>e buf'. (TagArray_decode le al TAG_INT_ARRAY buf :: (32 word list) result) = Throw e buf' \<longrightarrow>
         makeTag le al fuel TAG_INT_ARRAY nm buf = Throw e buf')
   \<and> (\<forall>e buf'. (TagArray_decode le al TAG_LONG_ARRAY buf :: (64 word list) result) = Throw e buf' \<longrightarrow>
         makeTag le al fuel TAG_LONG_ARRAY nm buf = Throw e buf')"
proof (intro conjI impI allI)
  show "makeTag le al fuel TAG_END nm buf =
          Throw (invalid_argument ''makeTag: TagType shouldn't be TAG_END'') buf"
    by (rule makeTag_END)
next
  assume "12 < type"
  then show "makeTag le al fuel type nm buf =
      Throw (runtime_error (''makeTag: TagType '' @ to_string (unat type) @ '' not found'')) buf"
    by (rule makeTag_unknown)
next
  assume "type \<in> primitive_types"
  then show "\<exists>t buf'. makeTag le al fuel type nm buf = Ok t buf'"
    by (rule makeTag_primitive_Ok)
next
  fix t buf' assume ok: "makeTag le al fuel type nm buf = Ok t buf'"
  show "getTagType t = type" using makeTag_Ok_kind [OF ok] by simp
  show "getName t = nm" using makeTag_Ok_kind [OF ok] by simp
  show "payload_kind (getValue t) = type" using makeTag_Ok_kind [OF ok] by simp
next
  fix t rest
  assume a: "encodable al t \<and> getTagType t = type \<and> fuel_needed t \<le> fuel
                \<and> good buf \<and> unread buf = encode_payload t @ rest"
  then have "decodes le al t" by (simp add: encodable_decodes)
  from decodesD [OF this, of fuel buf rest nm] a
  show "\<exists>buf'. makeTag le al fuel type nm buf = Ok (Tag type nm (getValue (decoded t))) buf'
                \<and> good buf' \<and> unread buf' = rest"
    by simp
next
  fix e buf' assume "TagList_decode le al fuel buf = Throw e buf'"
  then show "makeTag le al fuel TAG_LIST nm buf = Throw e buf'"
    by (simp add: makeTag_LIST)
next
  fix e buf' assume "TagCompound_decode le al fuel [] buf = Throw e buf'"
  then show "makeTag le al fuel TAG_COMPOUND nm buf = Throw e buf'"
    by (simp add: makeTag_COMPOUND)
next
  fix e buf' assume "(TagArray_decode le al TAG_BYTE_ARRAY buf :: (8 word list) result) = Throw e buf'"
  then show "makeTag le al fuel TAG_BYTE_ARRAY nm buf = Throw e buf'"
    by (simp add: makeTag_leaf TagArray_Throw)
next
  fix e buf' assume "(TagArray_decode le al TAG_INT_ARRAY buf :: (32 word list) result) = Throw e buf'"
  then show "makeTag le al fuel TAG_INT_ARRAY nm buf = Throw e buf'"
    by (simp add: makeTag_leaf TagArray_Throw)
next
  fix e buf' assume "(TagArray_decode le al TAG_LONG_ARRAY buf :: (64 word list) result) = Throw e buf'"
  then show "makeTag le al fuel TAG_LONG_ARRAY nm buf = Throw e buf'"
    by (simp add: makeTag_leaf TagArray_Throw)
qed

theorem makeTag_dispatch_witness:
  "makeTag True unbounded 0 TAG_END None (istream_of [7]) =
     Throw (invalid_argument ''makeTag: TagType shouldn't be TAG_END'') (istream_of [7])
   \<and> makeTag True unbounded 0 13 None (istream_of [7]) =
       Throw (runtime_error ''makeTag: TagType 13 not found'') (istream_of [7])
   \<and> (\<exists>t buf'. makeTag True unbounded 0 TAG_BYTE None (istream_of [7]) = Ok t buf')
   \<and> getTagType (Tag TAG_BYTE None (ByteVal 7)) = TAG_BYTE
   \<and> (\<exists>buf'. makeTag True unbounded 1 TAG_LIST None (istream_of [1, 0, 0, 0, 2, 7, 8, 0xEE]) =
         Ok (Tag TAG_LIST None
              (ListVal TAG_BYTE [Tag TAG_BYTE None (ByteVal 7), Tag TAG_BYTE None (ByteVal 8)])) buf'
         \<and> good buf' \<and> unread buf' = [0xEE])
   \<and> (\<exists>buf'. makeTag True unbounded 1 TAG_COMPOUND None
                (istream_of [8, 0, 1, 0x73, 0, 2, 0x68, 0x69, 0, 0xEE]) =
         Ok (Tag TAG_COMPOUND None
              (CompoundVal [([0x73, 0], Tag TAG_STRING (Some [0x73, 0]) (StringVal [0x68, 0x69, 0]))]))
            buf'
         \<and> good buf' \<and> unread buf' = [0xEE])
   \<and> makeTag True unbounded 1 TAG_LIST None (istream_of [1, 0, 0, 0, 0]) =
       Throw (runtime_error ''TagList::decode: not implement for variant length list'')
         (istream_of [])
   \<and> makeTag True (bounded 1) 0 TAG_INT_ARRAY None (istream_of [0, 0, 0, 2, 0, 0, 0, 7, 0, 0, 0, 8]) =
       Throw bad_alloc (istream_of [0, 0, 0, 7, 0, 0, 0, 8])"
proof -
  let ?l = "Tag TAG_LIST None
              (ListVal TAG_BYTE [Tag TAG_BYTE None (ByteVal 7), Tag TAG_BYTE None (ByteVal 8)])"
  let ?c = "Tag TAG_COMPOUND None
              (CompoundVal [([0x73], Tag TAG_STRING (Some [0x73]) (StringVal [0x68, 0x69]))])"
  let ?lb = "[1, 0, 0, 0, 2, 7, 8, 0xEE] :: byte list"
  let ?cb = "[8, 0, 1, 0x73, 0, 2, 0x68, 0x69, 0, 0xEE] :: byte list"
  have ts: "to_string (unat (13 :: byte)) = ''13''"
    by (simp add: to_string.simps digit_char_def)
  have k: "(12 :: byte) < 13" by simp
  have one: "makeTag True unbounded 0 TAG_END None (istream_of [7]) =
     Throw (invalid_argument ''makeTag: TagType shouldn't be TAG_END'') (istream_of [7])"
    using makeTag_dispatch [of True unbounded 0 None "istream_of [7]" 13] by simp
  have two: "makeTag True unbounded 0 13 None (istream_of [7]) =
       Throw (runtime_error ''makeTag: TagType 13 not found'') (istream_of [7])"
    using makeTag_dispatch [of True unbounded 0 None "istream_of [7]" 13] k ts by simp
  have p: "TAG_BYTE \<in> primitive_types" by (simp add: primitive_types_def)
  have three: "\<exists>t buf'. makeTag True unbounded 0 TAG_BYTE None (istream_of [7]) = Ok t buf'"
    using makeTag_dispatch [of True unbounded 0 None "istream_of [7]" TAG_BYTE] p by simp
  have b: "makeTag True unbounded 0 TAG_BYTE None (istream_of [7]) =
             Ok (Tag TAG_BYTE None (ByteVal 7)) (istream_of [])"
    by (simp add: decode_eval2 makeTag_leaf TagSingle_def readStream_of from_be_eval)
  have four: "getTagType (Tag TAG_BYTE None (ByteVal 7)) = TAG_BYTE"
    using makeTag_dispatch [of True unbounded 0 None "istream_of [7]" TAG_BYTE,
        THEN conjunct2, THEN conjunct2, THEN conjunct2, THEN conjunct1, rule_format, OF b]
    by simp
  have le: "encode_payload ?l @ [0xEE] = ?lb" by code_simp
  have lu: "unread (istream_of ?lb) = encode_payload ?l @ [0xEE]"
    unfolding le by (simp add: istream_of_def)
  have lw: "encodable unbounded ?l \<and> getTagType ?l = TAG_LIST \<and> fuel_needed ?l \<le> 1
            \<and> good (istream_of ?lb)"
    by (simp add: unbounded_def istream_of_def TagType_defs)
  have lh: "encodable unbounded ?l \<and> getTagType ?l = TAG_LIST \<and> fuel_needed ?l \<le> 1
            \<and> good (istream_of ?lb) \<and> unread (istream_of ?lb) = encode_payload ?l @ [0xEE]"
    using lw lu by blast
  have five: "\<exists>buf'. makeTag True unbounded 1 TAG_LIST None (istream_of ?lb) =
                Ok (Tag TAG_LIST None (getValue (decoded ?l))) buf' \<and> good buf' \<and> unread buf' = [0xEE]"
    using makeTag_dispatch [of True unbounded 1 None "istream_of ?lb" TAG_LIST,
        THEN conjunct2, THEN conjunct2, THEN conjunct2, THEN conjunct2, THEN conjunct1,
        rule_format, OF lh] .
  have ce: "encode_payload ?c @ [0xEE] = ?cb" by code_simp
  have cu: "unread (istream_of ?cb) = encode_payload ?c @ [0xEE]"
    unfolding ce by (simp add: istream_of_def)
  have cw: "encodable unbounded ?c \<and> getTagType ?c = TAG_COMPOUND \<and> fuel_needed ?c \<le> 1
            \<and> good (istream_of ?cb)"
    by (simp add: unbounded_def istream_of_def TagType_defs)
  have ch: "encodable unbounded ?c \<and> getTagType ?c = TAG_COMPOUND \<and> fuel_needed ?c \<le> 1
            \<and> good (istream_of ?cb) \<and> unread (istream_of ?cb) = encode_payload ?c @ [0xEE]"
    using cw cu by blast
  have six: "\<exists>buf'. makeTag True unbounded 1 TAG_COMPOUND None (istream_of ?cb) =
                Ok (Tag TAG_COMPOUND None (getValue (decoded ?c))) buf' \<and> good buf' \<and> unread buf' = [0xEE]"
    using makeTag_dispatch [of True unbounded 1 None "istream_of ?cb" TAG_COMPOUND,
        THEN conjunct2, THEN conjunct2, THEN conjunct2, THEN conjunct2, THEN conjunct1,
        rule_format, OF ch] .
  have t: "readStream_TagType True (istream_of [1, 0, 0, 0, 0]) = (1, istream_of [0, 0, 0, 0])"
    by (rule readStream_TagType_of)
  have l: "(readStream True (istream_of [0, 0, 0, 0]) :: 32 word \<times> istream) = (0, istream_of [])"
    by (simp add: readStream_of from_be_eval)
  have s: "sint (0 :: 32 word) \<le> 0" by simp
  have lt: "TagList_decode True unbounded 1 (istream_of [1, 0, 0, 0, 0]) =
              Throw (runtime_error ''TagList::decode: not implement for variant length list'')
                (istream_of [])"
    using TagList_decode_nonpos [OF t l s, of unbounded 1] .
  have seven: "makeTag True unbounded 1 TAG_LIST None (istream_of [1, 0, 0, 0, 0]) =
       Throw (runtime_error ''TagList::decode: not implement for variant length list'')
         (istream_of [])"
    using makeTag_dispatch [of True unbounded 1 None "istream_of [1, 0, 0, 0, 0]" 13,
        THEN conjunct2, THEN conjunct2, THEN conjunct2, THEN conjunct2, THEN conjunct2,
        THEN conjunct1, rule_format, OF lt] .
  have r: "(readStream True (istream_of [0, 0, 0, 2, 0, 0, 0, 7, 0, 0, 0, 8]) :: 32 word \<times> istream) =
             (2, istream_of [0, 0, 0, 7, 0, 0, 0, 8])"
    by (simp add: readStream_of from_be_eval)
  have at: "(TagArray_decode True (bounded 1) TAG_INT_ARRAY
              (istream_of [0, 0, 0, 2, 0, 0, 0, 7, 0, 0, 0, 8]) :: 32 word list result) =
              Throw bad_alloc (istream_of [0, 0, 0, 7, 0, 0, 0, 8])"
    by (simp add: TagArray_decode_def r bounded_def)
  have eight: "makeTag True (bounded 1) 0 TAG_INT_ARRAY None
                 (istream_of [0, 0, 0, 2, 0, 0, 0, 7, 0, 0, 0, 8]) =
       Throw bad_alloc (istream_of [0, 0, 0, 7, 0, 0, 0, 8])"
    using makeTag_dispatch [of True "bounded 1" 0 None
          "istream_of [0, 0, 0, 2, 0, 0, 0, 7, 0, 0, 0, 8]" 13,
        THEN conjunct2, THEN conjunct2, THEN conjunct2, THEN conjunct2, THEN conjunct2,
        THEN conjunct2, THEN conjunct2, THEN conjunct2, THEN conjunct1, rule_format, OF at] .
  have dl: "getValue (decoded ?l) =
              ListVal TAG_BYTE [Tag TAG_BYTE None (ByteVal 7), Tag TAG_BYTE None (ByteVal 8)]"
    by simp
  have dc: "getValue (decoded ?c) =
              CompoundVal [([0x73, 0], Tag TAG_STRING (Some [0x73, 0]) (StringVal [0x68, 0x69, 0]))]"
    by (simp add: decoded_text_def)
  from one two three four five six seven eight show ?thesis
    unfolding dl dc by simp
qed

text \<open>
  Claim C8 says that decoding the bytes a reference big-endian encoder produces for a
  value gives the value back, for every primitive type including text. Evaluation at
  the text "x": the encoder writes \<open>00 01 78\<close>, and the decoder returns "x" followed
  by a zero byte. (For the numeric types the round trip holds on both byte orders of
  the host: lemma \<open>readStream_encode_numeric\<close>.)
\<close>

theorem text_roundtrip_extra_byte:
  "encode_text [0x78] = [0, 1, 0x78]
   \<and> fst (readStream_string True (istream_of (encode_text [0x78]))) = [0x78, 0]"
proof -
  have a: "encode_text [0x78] = [0, 1, 0x78]"
    by code_simp
  show ?thesis
    unfolding a using readStream_string_of [of 0 1 1 "[0x78]" True] by (simp add: from_be_eval)
qed



text \<open>
  Claim C10. Let the good stream hold the encodings of the keyed children \<open>cs\<close> of a
  compound, each encodable under the name that is its key, then the END id, then any
  bytes \<open>rest\<close>; and let two of the children have the same name \<open>k\<close>, the first of
  them, \<open>t1\<close>, being the first child of that name. With enough calls left the compound
  decode does not fail: it returns a mapping and leaves the stream good at \<open>rest\<close>, so
  that the payload of the later child and all that follows up to the END id have been
  consumed. The mapping gives the name (as decoded) the decoded \<open>t1\<close>; for every name
  it gives the first child of that name; no key occurs twice. The dispatcher asked for a
  compound returns the node with this mapping.
\<close>

theorem duplicate_name_first_wins:
  assumes dup: "cs = pre @ (k, t1) # mid @ (k, t2) # post"
    and first: "k \<notin> fst ` set pre"
    and wf: "\<forall>kt \<in> set cs. encodable al (snd kt) \<and> length (fst kt) < 65536
                          \<and> getName (snd kt) = Some (fst kt)"
    and fuel: "sum_list (map (\<lambda>kt. Suc (fuel_needed (snd kt))) cs) \<le> fuel"
    and g: "good buf"
    and u: "unread buf = concat (map encode_keyed cs) @ TAG_END # rest"
  shows "\<exists>m buf'. TagCompound_decode le al fuel [] buf = Ok m buf'
           \<and> makeTag le al fuel TAG_COMPOUND nm buf = Ok (Tag TAG_COMPOUND nm (CompoundVal m)) buf'
           \<and> good buf' \<and> unread buf' = rest
           \<and> map_of m (decoded_text k) = Some (decoded t1)
           \<and> map_of m = map_of (map (\<lambda>kt. (decoded_text (fst kt), decoded (snd kt))) cs)
           \<and> distinct (map fst m)"
proof -
  let ?kv = "\<lambda>kt :: cstring \<times> Tag. (decoded_text (fst kt), decoded (snd kt))"
  let ?m = "insert_all [] (map ?kv cs)"
  obtain buf' where d: "TagCompound_decode le al fuel [] buf = Ok ?m buf'"
    and g': "good buf'" and u': "unread buf' = rest"
    using TagCompound_decode_children [OF wf fuel g u, of le "[]"] by blast
  have mk: "makeTag le al fuel TAG_COMPOUND nm buf = Ok (Tag TAG_COMPOUND nm (CompoundVal ?m)) buf'"
    using d by (simp add: makeTag_COMPOUND)
  have mo: "map_of ?m = map_of (map ?kv cs)"
    by (simp add: map_of_insert_all)
  have nin: "decoded_text k \<notin> fst ` set (map ?kv pre)"
    using first by (force simp: decoded_text_def image_iff)
  have eq: "map ?kv cs = map ?kv pre @ (decoded_text k, decoded t1) # map ?kv (mid @ (k, t2) # post)"
    by (simp add: dup)
  have "map_of (map ?kv cs) (decoded_text k) = Some (decoded t1)"
    unfolding eq using nin by (rule map_of_first)
  then have fst1: "map_of ?m (decoded_text k) = Some (decoded t1)"
    by (simp add: mo)
  have di: "distinct (map fst ?m)"
    by (rule distinct_insert_all) simp
  from d mk g' u' fst1 mo di show ?thesis by blast
qed

theorem duplicate_name_first_wins_witness:
  "\<exists>m buf'. TagCompound_decode True unbounded 3 []
              (istream_of [1, 0, 1, 0x78, 7,  1, 0, 1, 0x79, 5,  1, 0, 1, 0x78, 9,  0, 0xEE]) = Ok m buf'
     \<and> unread buf' = [0xEE]
     \<and> map_of m [0x78, 0] = Some (Tag TAG_BYTE (Some [0x78, 0]) (ByteVal 7))
     \<and> m = [([0x78, 0], Tag TAG_BYTE (Some [0x78, 0]) (ByteVal 7)),
            ([0x79, 0], Tag TAG_BYTE (Some [0x79, 0]) (ByteVal 5))]"
proof -
  let ?x1 = "Tag TAG_BYTE (Some [0x78]) (ByteVal 7)"
  let ?y = "Tag TAG_BYTE (Some [0x79]) (ByteVal 5)"
  let ?x2 = "Tag TAG_BYTE (Some [0x78]) (ByteVal 9)"
  let ?cs = "[([0x78], ?x1), ([0x79], ?y), ([0x78], ?x2)] :: (cstring \<times> Tag) list"
  let ?bytes = "[1, 0, 1, 0x78, 7,  1, 0, 1, 0x79, 5,  1, 0, 1, 0x78, 9,  0, 0xEE] :: byte list"
  have dup: "?cs = [] @ ([0x78], ?x1) # [([0x79], ?y)] @ ([0x78], ?x2) # []" by simp
  have first: "[0x78 :: byte] \<notin> fst ` set ([] :: (cstring \<times> Tag) list)" by simp
  have wf: "\<forall>kt \<in> set ?cs. encodable unbounded (snd kt) \<and> length (fst kt) < 65536
                          \<and> getName (snd kt) = Some (fst kt)"
    by (simp add: TagType_defs)
  have fu: "sum_list (map (\<lambda>kt. Suc (fuel_needed (snd kt))) ?cs) \<le> 3" by simp
  have g: "good (istream_of ?bytes)" by (simp add: istream_of_def)
  have enc: "concat (map encode_keyed ?cs) @ TAG_END # [0xEE] = ?bytes" by code_simp
  have u: "unread (istream_of ?bytes) = concat (map encode_keyed ?cs) @ TAG_END # [0xEE]"
    unfolding enc by (simp add: istream_of_def)
  have e: "TagCompound_decode True unbounded (Suc (Suc (Suc 0))) [] (istream_of ?bytes) =
             Ok [([0x78, 0], Tag TAG_BYTE (Some [0x78, 0]) (ByteVal 7)),
                 ([0x79, 0], Tag TAG_BYTE (Some [0x79, 0]) (ByteVal 5))] (istream_of [0xEE])"
    by (simp add: decode_eval2)
  then have e3: "TagCompound_decode True unbounded 3 [] (istream_of ?bytes) =
             Ok [([0x78, 0], Tag TAG_BYTE (Some [0x78, 0]) (ByteVal 7)),
                 ([0x79, 0], Tag TAG_BYTE (Some [0x79, 0]) (ByteVal 5))] (istream_of [0xEE])"
    by (simp add: numeral_3_eq_3)
  obtain m buf' where r: "TagCompound_decode True unbounded 3 [] (istream_of ?bytes) = Ok m buf'"
    and u': "unread buf' = [0xEE]"
    and f: "map_of m (decoded_text [0x78]) = Some (decoded ?x1)"
    using duplicate_name_first_wins [OF dup first wf fu g u, of True None] by blast
  from r e3 have m: "m = [([0x78, 0], Tag TAG_BYTE (Some [0x78, 0]) (ByteVal 7)),
                          ([0x79, 0], Tag TAG_BYTE (Some [0x79, 0]) (ByteVal 5))]"
    by simp
  from f have "map_of m [0x78, 0] = Some (Tag TAG_BYTE (Some [0x78, 0]) (ByteVal 7))"
    by (simp add: decoded_text_def)
  with r u' m show ?thesis by blast
qed

end
